theory Spec2Isabelle
  imports Complex_Main "HOL-Library.Word"
begin

section \<open>Numbers\<close>

text \<open>
  The program computes in C \<open>float\<close>, the binary32 format of IEEE 754. A float is
  modelled by the real number it stands for, or by one of the three special values that
  \<open>fval\<close> adds to the reals.

  Terrain generation, the elevation statistics and the view fitter are modelled in exact
  arithmetic: their sums, products and quotients are those of the reals, without rounding
  and without overflow. What is proved of them below either does not depend on rounding
  (which cells are written and read, how often, and in which order) or leaves room for it
  (bounds that are not attained). The operations of these parts that can leave the finite
  numbers are then the unguarded divisions by \<open>terrain_width\<close> and \<open>terrain_height\<close> in
  \<open>calculate_view_parameters\<close>.

  The elevation classifier compares a quotient with constants, and there the outcome
  turns on the last bit: it is modelled with the rounding of each operation, by
  \<open>float32\<close> below.

  This is the arithmetic of the Makefile's debug build; its other builds pass
  \<open>-ffast-math\<close>, which lets the compiler assume that no infinity and no NaN occurs and
  so promises nothing about a division by zero.
\<close>

datatype fval = Fin real | PInf | NInf | NaN

text \<open>
  The arithmetic of IEEE 754 on these values, before rounding. Zero is \<open>Fin 0\<close>, without
  a sign: every divisor of the program that can be zero is a difference \<open>max - min\<close> with
  \<open>min \<le> max\<close>, which is \<open>+0\<close> when it is zero, so a non-zero number over zero is the
  infinity of the dividend's sign, and \<open>0 / 0\<close> is NaN.
\<close>

fun fneg :: "fval \<Rightarrow> fval" where
  "fneg (Fin a) = Fin (- a)"
| "fneg PInf = NInf"
| "fneg NInf = PInf"
| "fneg NaN = NaN"

fun fadd :: "fval \<Rightarrow> fval \<Rightarrow> fval" where
  "fadd NaN v = NaN"
| "fadd v NaN = NaN"
| "fadd (Fin a) (Fin b) = Fin (a + b)"
| "fadd PInf NInf = NaN"
| "fadd NInf PInf = NaN"
| "fadd PInf v = PInf"
| "fadd v PInf = PInf"
| "fadd NInf v = NInf"
| "fadd v NInf = NInf"

definition fsub :: "fval \<Rightarrow> fval \<Rightarrow> fval" where
  "fsub u v = fadd u (fneg v)"

text \<open>The infinity of the sign of \<open>a\<close>; NaN when \<open>a\<close> is zero.\<close>

definition signed_inf :: "real \<Rightarrow> fval" where
  "signed_inf a = (if 0 < a then PInf else if a < 0 then NInf else NaN)"

fun fmul :: "fval \<Rightarrow> fval \<Rightarrow> fval" where
  "fmul NaN v = NaN"
| "fmul v NaN = NaN"
| "fmul (Fin a) (Fin b) = Fin (a * b)"
| "fmul (Fin a) PInf = signed_inf a"
| "fmul (Fin a) NInf = signed_inf (- a)"
| "fmul PInf (Fin b) = signed_inf b"
| "fmul NInf (Fin b) = signed_inf (- b)"
| "fmul PInf PInf = PInf"
| "fmul NInf NInf = PInf"
| "fmul PInf NInf = NInf"
| "fmul NInf PInf = NInf"

fun fdiv :: "fval \<Rightarrow> fval \<Rightarrow> fval" where
  "fdiv NaN v = NaN"
| "fdiv v NaN = NaN"
| "fdiv (Fin a) (Fin b) = (if b \<noteq> 0 then Fin (a / b) else signed_inf a)"
| "fdiv (Fin a) PInf = Fin 0"
| "fdiv (Fin a) NInf = Fin 0"
| "fdiv PInf (Fin b) = (if 0 \<le> b then PInf else NInf)"
| "fdiv NInf (Fin b) = (if 0 \<le> b then NInf else PInf)"
| "fdiv PInf PInf = NaN"
| "fdiv PInf NInf = NaN"
| "fdiv NInf PInf = NaN"
| "fdiv NInf NInf = NaN"

text \<open>\<open>fminf\<close>: the smaller argument; an argument that is NaN is ignored.\<close>

fun fminf :: "fval \<Rightarrow> fval \<Rightarrow> fval" where
  "fminf NaN v = v"
| "fminf v NaN = v"
| "fminf (Fin a) (Fin b) = Fin (min a b)"
| "fminf NInf v = NInf"
| "fminf v NInf = NInf"
| "fminf PInf v = v"
| "fminf v PInf = v"

text \<open>\<open>u < v\<close> on floats: false when either side is NaN.\<close>

fun fless :: "fval \<Rightarrow> fval \<Rightarrow> bool" where
  "fless NaN v = False"
| "fless v NaN = False"
| "fless (Fin a) (Fin b) = (a < b)"
| "fless PInf v = False"
| "fless v NInf = False"
| "fless NInf v = True"
| "fless v PInf = True"

text \<open>
  Rounding to the nearest integer, a tie going to the even one.
\<close>

definition round_to_even :: "real \<Rightarrow> int" where
  "round_to_even y =
     (let f = \<lfloor>y\<rfloor>;
          d = y - of_int f
      in if d < 1 / 2 then f
         else if 1 / 2 < d then f + 1
         else if even f then f else f + 1)"

text \<open>
  The float nearest to a real number, as every operation of binary32 arithmetic and
  every float constant of the source returns it: \<open>x\<close> lies in the binade
  \<open>2^e \<le> \<bar>x\<bar> < 2^(e + 1)\<close>, where the floats are the multiples of \<open>2^(e - 23)\<close>; it is
  rounded to the nearest of them, a tie going to the even significand, and a result of
  \<open>2^128\<close> or more is the infinity of the sign of \<open>x\<close>.

  Exponents are not cut off below: a result smaller than \<open>2^(-126)\<close> keeps 24 digits here,
  where the machine keeps fewer. For the classifier this makes no difference. The
  difference of two floats is a multiple of \<open>2^(-149)\<close>, and one smaller than \<open>2^(-126)\<close>
  is a float, left alone here and by the machine; and a quotient smaller than \<open>2^(-126)\<close>
  is below every threshold, here and on the machine.
\<close>

definition float32 :: "real \<Rightarrow> fval" where
  "float32 x =
     (if x = 0 then Fin 0
      else let e = \<lfloor>log 2 \<bar>x\<bar>\<rfloor>;
               ulp = 2 powr (of_int e - 23);
               y = of_int (round_to_even (\<bar>x\<bar> / ulp)) * ulp
           in if 2 ^ 128 \<le> y then signed_inf x else Fin (sgn x * y))"

text \<open>The result of an operation, rounded: an infinity and NaN stay what they are.\<close>

fun fround :: "fval \<Rightarrow> fval" where
  "fround (Fin a) = float32 a"
| "fround v = v"


section \<open>Elevation classifier\<close>

text \<open>raylib's \<open>Color\<close>: the four unsigned bytes \<open>r\<close>, \<open>g\<close>, \<open>b\<close>, \<open>a\<close>.\<close>

record Color =
  red :: "8 word"
  green :: "8 word"
  blue :: "8 word"
  alpha :: "8 word"

definition COLOR_WATER :: Color where
  "COLOR_WATER = \<lparr>red = 30, green = 90, blue = 180, alpha = 255\<rparr>"

definition COLOR_SAND :: Color where
  "COLOR_SAND = \<lparr>red = 210, green = 180, blue = 140, alpha = 255\<rparr>"

definition COLOR_GRASS :: Color where
  "COLOR_GRASS = \<lparr>red = 50, green = 150, blue = 50, alpha = 255\<rparr>"

definition COLOR_ROCK :: Color where
  "COLOR_ROCK = \<lparr>red = 120, green = 100, blue = 80, alpha = 255\<rparr>"

definition COLOR_SNOW :: Color where
  "COLOR_SNOW = \<lparr>red = 240, green = 240, blue = 255, alpha = 255\<rparr>"

text \<open>
  \<open>range = max_alt - min_alt\<close> and \<open>normalized = (height - min_alt) / range\<close>, each of the
  three operations rounded to a float.
\<close>

definition calculate_normalized_height :: "real \<Rightarrow> real \<Rightarrow> real \<Rightarrow> fval" where
  "calculate_normalized_height height max_alt min_alt =
     (let range = fround (fsub (Fin max_alt) (Fin min_alt));
          normalized = fround (fdiv (fround (fsub (Fin height) (Fin min_alt))) range)
      in normalized)"

text \<open>
  The thresholds are the float constants \<open>0.2f\<close>, \<open>0.35f\<close>, \<open>0.65f\<close> and \<open>0.85f\<close> of the
  source: the floats nearest to the decimals.
\<close>

definition calculate_height_color :: "real \<Rightarrow> real \<Rightarrow> real \<Rightarrow> Color" where
  "calculate_height_color height max_alt min_alt =
     (let normalized = calculate_normalized_height height max_alt min_alt
      in if fless normalized (float32 0.2) then COLOR_SNOW
         else if fless normalized (float32 0.35) then COLOR_ROCK
         else if fless normalized (float32 0.65) then COLOR_GRASS
         else if fless normalized (float32 0.85) then COLOR_SAND
         else COLOR_WATER)"

text \<open>
  The classifier as the specification words it: \<open>classify(elevation, min, max)\<close> returns
  the band of \<open>t = (elevation - min) / (max - min)\<close>, a real number held against the
  decimals 0.20, 0.35, 0.65 and 0.85. The code takes the maximum before the minimum and
  returns the band's colour.
\<close>

datatype band = Snow | Rock | Grass | Sand | Water

definition band_of :: "real \<Rightarrow> band" where
  "band_of t =
     (if t < 0.20 then Snow
      else if t < 0.35 then Rock
      else if t < 0.65 then Grass
      else if t < 0.85 then Sand
      else Water)"

text \<open>The band of a float under the float thresholds.\<close>

definition float_band_of :: "fval \<Rightarrow> band" where
  "float_band_of t =
     (if fless t (float32 0.2) then Snow
      else if fless t (float32 0.35) then Rock
      else if fless t (float32 0.65) then Grass
      else if fless t (float32 0.85) then Sand
      else Water)"

fun band_color :: "band \<Rightarrow> Color" where
  "band_color Snow = COLOR_SNOW"
| "band_color Rock = COLOR_ROCK"
| "band_color Grass = COLOR_GRASS"
| "band_color Sand = COLOR_SAND"
| "band_color Water = COLOR_WATER"

section \<open>Configuration and state\<close>

text \<open>
  The compile-time constants \<open>ITERATIONS\<close> (the grid size \<open>N\<close>; 257 in the source, where
  its comment allows any \<open>2^n + 1\<close>), \<open>INITIAL_HEIGHT\<close> and \<open>ROUGHNESS\<close>, and what the C
  library supplies: \<open>RAND_MAX\<close> and the values that successive calls of \<open>rand()\<close> return.
\<close>

record env =
  ITERATIONS :: nat
  INITIAL_HEIGHT :: real
  ROUGHNESS :: real
  RAND_MAX :: nat
  rand_values :: "nat \<Rightarrow> nat"

definition SCREEN_MARGIN :: real where "SCREEN_MARGIN = 50"
definition SCREEN_WIDTH :: real where "SCREEN_WIDTH = 800"
definition SCREEN_HEIGHT :: real where "SCREEN_HEIGHT = 700"
definition UI_HEIGHT :: real where "UI_HEIGHT = 90"
definition ISO_ANGLE :: real where "ISO_ANGLE = 30"
definition ROTATION_ANGLE :: real where "ROTATION_ANGLE = 45"
definition DEG2RAD :: real where "DEG2RAD = pi / 180"

text \<open>
  The global variables. \<open>terrain[x][y]\<close> is \<open>terrain s (x, y)\<close>; \<open>rand_calls\<close> counts the
  calls of \<open>rand()\<close> made so far, so the next call returns \<open>rand_values e (rand_calls s)\<close>.
\<close>

type_synonym grid = "nat \<times> nat \<Rightarrow> real"

record world =
  terrain :: grid
  min_height :: real
  max_height :: real
  render_scale :: fval
  offset_x :: fval
  offset_y :: fval
  rand_calls :: nat

section \<open>Loops\<close>

text \<open>
  \<open>for (int i = start; i < bound; i += stride) body\<close>. A stride of zero would never
  leave the loop; every loop of the program has a positive stride (1, or \<open>length\<close> and
  \<open>half\<close> inside \<open>while (length > 1)\<close>), and the test \<open>0 < stride\<close> makes the recursion
  total without changing those loops.
\<close>

function for_loop :: "nat \<Rightarrow> nat \<Rightarrow> nat \<Rightarrow> (nat \<Rightarrow> 's \<Rightarrow> 's) \<Rightarrow> 's \<Rightarrow> 's" where
  "for_loop i bound stride body s =
     (if i < bound \<and> 0 < stride then for_loop (i + stride) bound stride body (body i s) else s)"
  by pat_completeness auto
termination
  by (relation "measure (\<lambda>(i, bound, stride, body, s). bound - i)") auto

declare for_loop.simps [simp del]

text \<open>The indices that \<open>for (i = start; i < bound; i += stride)\<close> passes to its body.\<close>

definition visits :: "nat \<Rightarrow> nat \<Rightarrow> nat \<Rightarrow> nat \<Rightarrow> bool" where
  "visits start bound stride i \<longleftrightarrow> i < bound \<and> (\<exists>k. i = start + k * stride)"

section \<open>Terrain generation\<close>

definition rand :: "env \<Rightarrow> world \<Rightarrow> nat \<times> world" where
  "rand e s = (rand_values e (rand_calls s), s\<lparr>rand_calls := rand_calls s + 1\<rparr>)"

definition calculate_noise :: "env \<Rightarrow> real \<Rightarrow> world \<Rightarrow> real \<times> world" where
  "calculate_noise e amplitude s =
     (let (v, s') = rand e s
      in ((real v / real (RAND_MAX e) * 2 - 1) * amplitude, s'))"

text \<open>\<open>rand()\<close> returns a value between 0 and \<open>RAND_MAX\<close>, and \<open>RAND_MAX\<close> is positive.\<close>

definition rand_ok :: "env \<Rightarrow> bool" where
  "rand_ok e \<longleftrightarrow> 0 < RAND_MAX e \<and> (\<forall>i. rand_values e i \<le> RAND_MAX e)"

definition reset_canvas_corners :: "env \<Rightarrow> world \<Rightarrow> world" where
  "reset_canvas_corners e s =
     (let t1 = (terrain s)((0, 0) := 0);
          t2 = t1((0, ITERATIONS e - 1) := 0);
          t3 = t2((ITERATIONS e - 1, 0) := 0);
          t4 = t3((ITERATIONS e - 1, ITERATIONS e - 1) := 0)
      in s\<lparr>terrain := t4\<rparr>)"

text \<open>The body of the square step's inner loop.\<close>

definition square_cell :: "env \<Rightarrow> nat \<Rightarrow> nat \<Rightarrow> real \<Rightarrow> nat \<Rightarrow> nat \<Rightarrow> world \<Rightarrow> world" where
  "square_cell e len half amplitude x y s =
     (let average = (terrain s (x, y) +
                     terrain s (x + len, y) +
                     terrain s (x, y + len) +
                     terrain s (x + len, y + len)) / 4;
          (noise, s') = calculate_noise e amplitude s
      in s'\<lparr>terrain := (terrain s')((x + half, y + half) := average + noise)\<rparr>)"

definition square_step :: "env \<Rightarrow> nat \<Rightarrow> nat \<Rightarrow> real \<Rightarrow> world \<Rightarrow> world" where
  "square_step e len half amplitude s =
     for_loop 0 (ITERATIONS e - 1) len
       (\<lambda>x. for_loop 0 (ITERATIONS e - 1) len (\<lambda>y. square_cell e len half amplitude x y)) s"

text \<open>
  The four guarded reads of the diamond step: the sum of the neighbours read and their
  count.
\<close>

definition diamond_neighbors :: "env \<Rightarrow> nat \<Rightarrow> nat \<Rightarrow> nat \<Rightarrow> grid \<Rightarrow> real \<times> nat" where
  "diamond_neighbors e half x y t =
     (let (sum, count) = (0, 0);
          (sum, count) = (if x \<ge> half then (sum + t (x - half, y), count + 1) else (sum, count));
          (sum, count) = (if x + half < ITERATIONS e then (sum + t (x + half, y), count + 1) else (sum, count));
          (sum, count) = (if y \<ge> half then (sum + t (x, y - half), count + 1) else (sum, count));
          (sum, count) = (if y + half < ITERATIONS e then (sum + t (x, y + half), count + 1) else (sum, count))
      in (sum, count))"

text \<open>
  The body of the diamond step's inner loop. The quotient \<open>sum / count\<close> is taken in the
  reals, where it is the program's quotient as long as \<open>count\<close> is not zero.
\<close>

definition diamond_cell :: "env \<Rightarrow> nat \<Rightarrow> real \<Rightarrow> nat \<Rightarrow> nat \<Rightarrow> world \<Rightarrow> world" where
  "diamond_cell e half amplitude x y s =
     (let (sum, count) = diamond_neighbors e half x y (terrain s);
          (noise, s') = calculate_noise e amplitude s
      in s'\<lparr>terrain := (terrain s')((x, y) := (sum / real count) + noise)\<rparr>)"

definition diamond_step :: "env \<Rightarrow> nat \<Rightarrow> nat \<Rightarrow> real \<Rightarrow> world \<Rightarrow> world" where
  "diamond_step e len half amplitude s =
     for_loop 0 (ITERATIONS e) half
       (\<lambda>x. for_loop ((x + half) mod len) (ITERATIONS e) len (\<lambda>y. diamond_cell e half amplitude x y)) s"

text \<open>
  The neighbours of a diamond cell as the specification words them: the cells at distance
  \<open>half\<close> in the four cardinal directions, those outside the grid left out. The
  coordinates are integers, so that a neighbour left of column 0 or above row 0 is a cell
  outside the grid and not one on its border.
\<close>

definition in_grid_neighbors :: "nat \<Rightarrow> nat \<Rightarrow> nat \<Rightarrow> nat \<Rightarrow> (int \<times> int) list" where
  "in_grid_neighbors n half x y =
     filter (\<lambda>(p, q). 0 \<le> p \<and> p < int n \<and> 0 \<le> q \<and> q < int n)
       [(int x - int half, int y), (int x + int half, int y),
        (int x, int y - int half), (int x, int y + int half)]"

text \<open>
  One pass of \<open>while (length > 1)\<close>, on the loop's variables \<open>length\<close> and
  \<open>amplitude\<close> and the state: the square step, the diamond step, then
  \<open>length /= 2\<close> and \<open>amplitude *= powf(2.0f, -ROUGHNESS)\<close>.
\<close>

definition generate_pass :: "env \<Rightarrow> nat \<times> real \<times> world \<Rightarrow> nat \<times> real \<times> world" where
  "generate_pass e = (\<lambda>(len, amplitude, s).
     let half = len div 2;
         s1 = square_step e len half amplitude s;
         s2 = diamond_step e len half amplitude s1
     in (len div 2, amplitude * 2 powr (- ROUGHNESS e), s2))"

text \<open>
  The loop, returning the values of \<open>length\<close> and \<open>amplitude\<close> at the exit together
  with the state; the result is \<open>None\<close> if the loop never exits.
\<close>

partial_function (option) generate_loop :: "env \<Rightarrow> nat \<Rightarrow> real \<Rightarrow> world \<Rightarrow> (nat \<times> real \<times> world) option" where
  "generate_loop e len amplitude s =
     (if 1 < len then
        (case generate_pass e (len, amplitude, s) of
           (len', amplitude', s') \<Rightarrow> generate_loop e len' amplitude' s')
      else Some (len, amplitude, s))"

definition generate_terrain :: "env \<Rightarrow> world \<Rightarrow> world option" where
  "generate_terrain e s =
     (let len = ITERATIONS e - 1;
          amplitude = INITIAL_HEIGHT e;
          s0 = s\<lparr>min_height := 0, max_height := 0\<rparr>
      in map_option (\<lambda>(len', amplitude', s'). s') (generate_loop e len amplitude s0))"

text \<open>
  The cells of the grid whose two coordinates are multiples of \<open>len\<close> hold values
  between \<open>-B\<close> and \<open>B\<close>.
\<close>

definition grid_bounded :: "env \<Rightarrow> nat \<Rightarrow> real \<Rightarrow> grid \<Rightarrow> bool" where
  "grid_bounded e len B t \<longleftrightarrow>
     (\<forall>p q. p < ITERATIONS e \<and> q < ITERATIONS e \<and> p mod len = 0 \<and> q mod len = 0
            \<longrightarrow> \<bar>t (p, q)\<bar> \<le> B)"

text \<open>The four corner cells of the grid.\<close>

definition is_corner :: "env \<Rightarrow> nat \<times> nat \<Rightarrow> bool" where
  "is_corner e c \<longleftrightarrow>
     c = (0, 0) \<or> c = (0, ITERATIONS e - 1) \<or> c = (ITERATIONS e - 1, 0)
     \<or> c = (ITERATIONS e - 1, ITERATIONS e - 1)"

section \<open>Elevation statistics\<close>

definition min_max_cell :: "nat \<Rightarrow> nat \<Rightarrow> world \<Rightarrow> world" where
  "min_max_cell x y s =
     (let s1 = (if terrain s (x, y) < min_height s then s\<lparr>min_height := terrain s (x, y)\<rparr> else s);
          s2 = (if terrain s1 (x, y) > max_height s1 then s1\<lparr>max_height := terrain s1 (x, y)\<rparr> else s1)
      in s2)"

definition calculate_min_max_height :: "env \<Rightarrow> world \<Rightarrow> world" where
  "calculate_min_max_height e s =
     (let s0 = s\<lparr>min_height := terrain s (0, 0), max_height := terrain s (0, 0)\<rparr>
      in for_loop 0 (ITERATIONS e) 1 (\<lambda>x. for_loop 0 (ITERATIONS e) 1 (\<lambda>y. min_max_cell x y)) s0)"

section \<open>The program's constants and initial state\<close>

text \<open>
  The source's \<open>INITIAL_HEIGHT\<close> and \<open>ROUGHNESS\<close>, with the grid size and the values
  of \<open>rand()\<close> left open; 32767 is \<open>RAND_MAX\<close> of the C library the Makefile builds
  against. The source sets \<open>ITERATIONS\<close> to 257.
\<close>

definition terragen_env :: "nat \<Rightarrow> (nat \<Rightarrow> nat) \<Rightarrow> env" where
  "terragen_env n rv =
     \<lparr>ITERATIONS = n, INITIAL_HEIGHT = 50, ROUGHNESS = 1.2, RAND_MAX = 32767, rand_values = rv\<rparr>"

text \<open>The globals at program start: C initialises them to zero.\<close>

definition initial_world :: world where
  "initial_world =
     \<lparr>terrain = (\<lambda>c. 0), min_height = 0, max_height = 0,
      render_scale = Fin 0, offset_x = Fin 0, offset_y = Fin 0, rand_calls = 0\<rparr>"

section \<open>Projection and view fitting\<close>

text \<open>raylib's \<open>Vector2\<close>: the two floats \<open>x\<close> and \<open>y\<close>.\<close>

record Vector2 =
  vec_x :: real
  vec_y :: real

definition isometric_projection :: "real \<Rightarrow> real \<Rightarrow> real \<Rightarrow> Vector2" where
  "isometric_projection x y z =
     (let ang_rot = ROTATION_ANGLE * DEG2RAD;
          ang_iso = ISO_ANGLE * DEG2RAD;
          x_rot = x * cos ang_rot - y * sin ang_rot;
          y_rot = x * sin ang_rot + y * cos ang_rot
      in \<lparr>vec_x = x_rot, vec_y = y_rot * sin ang_iso - z\<rparr>)"

text \<open>
  The locals \<open>min_x\<close>, \<open>max_x\<close>, \<open>min_y\<close>, \<open>max_y\<close> of \<open>calculate_view_parameters\<close>, and
  the body of its scan.
\<close>

record bounds =
  min_x :: real
  max_x :: real
  min_y :: real
  max_y :: real

definition view_cell :: "grid \<Rightarrow> nat \<Rightarrow> nat \<Rightarrow> bounds \<Rightarrow> bounds" where
  "view_cell t y x b =
     (let p = isometric_projection (real x) (real y) (t (x, y));
          b1 = (if vec_x p < min_x b then b\<lparr>min_x := vec_x p\<rparr> else b);
          b2 = (if vec_x p > max_x b1 then b1\<lparr>max_x := vec_x p\<rparr> else b1);
          b3 = (if vec_y p < min_y b2 then b2\<lparr>min_y := vec_y p\<rparr> else b2);
          b4 = (if vec_y p > max_y b3 then b3\<lparr>max_y := vec_y p\<rparr> else b3)
      in b4)"

text \<open>The first pass of \<open>calculate_view_parameters\<close>: the limits of the projected terrain.\<close>

definition projected_bounds :: "env \<Rightarrow> world \<Rightarrow> bounds" where
  "projected_bounds e s =
     for_loop 0 (ITERATIONS e) 1 (\<lambda>y. for_loop 0 (ITERATIONS e) 1 (\<lambda>x. view_cell (terrain s) y x))
       \<lparr>min_x = 1000000000, max_x = - 1000000000, min_y = 1000000000, max_y = - 1000000000\<rparr>"

definition calculate_view_parameters :: "env \<Rightarrow> world \<Rightarrow> world" where
  "calculate_view_parameters e s =
     (let b = projected_bounds e s;
          terrain_width = max_x b - min_x b;
          terrain_height = max_y b - min_y b;
          available_space_x = SCREEN_WIDTH - (2 * SCREEN_MARGIN);
          available_space_y = (SCREEN_HEIGHT - UI_HEIGHT) - (2 * SCREEN_MARGIN);
          scale_x = fdiv (Fin available_space_x) (Fin terrain_width);
          scale_y = fdiv (Fin available_space_y) (Fin terrain_height);
          scale = fminf scale_x scale_y;
          scaled_width = fmul (Fin terrain_width) scale;
          scaled_height = fmul (Fin terrain_height) scale
      in s\<lparr>render_scale := scale,
            offset_x := fsub (fdiv (fsub (Fin SCREEN_WIDTH) scaled_width) (Fin 2))
                             (fmul (Fin (min_x b)) scale),
            offset_y := fsub (fadd (fdiv (fsub (Fin (SCREEN_HEIGHT - UI_HEIGHT)) scaled_height) (Fin 2))
                                   (Fin UI_HEIGHT))
                             (fmul (Fin (min_y b)) scale)\<rparr>)"

text \<open>
  What \<open>main\<close> does at start and on every press of the space bar; \<open>None\<close> if generation
  does not return.
\<close>

definition regenerate :: "env \<Rightarrow> world \<Rightarrow> world option" where
  "regenerate e s =
     (case generate_terrain e (reset_canvas_corners e s) of
        None \<Rightarrow> None
      | Some s1 \<Rightarrow> Some (calculate_view_parameters e (calculate_min_max_height e s1)))"

section \<open>Properties of rounding\<close>

lemma round_to_even_bounds: "\<lfloor>y\<rfloor> \<le> round_to_even y" "round_to_even y \<le> \<lfloor>y\<rfloor> + 1"
  by (simp_all add: round_to_even_def Let_def)

lemma round_to_even_of_int: "round_to_even (of_int m) = m"
  by (simp add: round_to_even_def)

lemma float32_zero: "float32 0 = Fin 0"
  by (simp add: float32_def)

lemma float32_eval:
  assumes "x \<noteq> 0" and "2 powr (of_int e) \<le> \<bar>x\<bar>" and "\<bar>x\<bar> < 2 powr (of_int (e + 1))"
  shows "float32 x =
           (let ulp = 2 powr (of_int e - 23);
                y = of_int (round_to_even (\<bar>x\<bar> / ulp)) * ulp
            in if 2 ^ 128 \<le> y then signed_inf x else Fin (sgn x * y))"
proof -
  have "0 < \<bar>x\<bar>" using assms(1) by simp
  then have "\<lfloor>log 2 \<bar>x\<bar>\<rfloor> = e"
    using assms(2,3) by (simp add: floor_log_eq_powr_iff)
  then show ?thesis using assms(1) by (simp add: float32_def)
qed

lemma float32_magnitude:
  assumes "x \<noteq> 0"
  shows "(0::real) < of_int (round_to_even (\<bar>x\<bar> / 2 powr (of_int \<lfloor>log 2 \<bar>x\<bar>\<rfloor> - 23)))
               * 2 powr (of_int \<lfloor>log 2 \<bar>x\<bar>\<rfloor> - 23)"
proof -
  define e where "e = \<lfloor>log 2 \<bar>x\<bar>\<rfloor>"
  define ulp :: real where "ulp = 2 powr (of_int e - 23)"
  have pos: "0 < \<bar>x\<bar>" using assms by simp
  have "2 powr (of_int e) \<le> \<bar>x\<bar>"
    using floor_log_eq_powr_iff [of "\<bar>x\<bar>" 2 e] pos by (simp add: e_def)
  moreover have "2 powr (of_int e) = 2 powr 23 * ulp"
  proof -
    have "(2::real) powr (of_int e) = 2 powr (23 + (of_int e - 23))" by simp
    also have "\<dots> = 2 powr 23 * 2 powr (of_int e - 23)" by (rule powr_add)
    finally show ?thesis by (simp only: ulp_def)
  qed
  moreover have u: "0 < ulp" by (simp add: ulp_def)
  ultimately have "2 powr 23 \<le> \<bar>x\<bar> / ulp" by (simp add: pos_le_divide_eq)
  then have "(8388608::real) \<le> \<bar>x\<bar> / ulp" by simp
  then have "8388608 \<le> \<lfloor>\<bar>x\<bar> / ulp\<rfloor>" by (simp add: le_floor_iff)
  then have "0 < round_to_even (\<bar>x\<bar> / ulp)"
    using round_to_even_bounds(1) [of "\<bar>x\<bar> / ulp"] by linarith
  then show ?thesis using u by (simp add: ulp_def e_def)
qed

lemma float32_pos:
  assumes "0 < x"
  shows "float32 x = PInf \<or> (\<exists>y. 0 < y \<and> float32 x = Fin y)"
  using float32_magnitude [of x] assms by (simp add: float32_def Let_def signed_inf_def)

lemma float32_neg:
  assumes "x < 0"
  shows "float32 x = NInf \<or> (\<exists>y. y < 0 \<and> float32 x = Fin y)"
  using float32_magnitude [of x] assms by (simp add: float32_def Let_def signed_inf_def)

text \<open>A number with a significand of 24 bits is a float, and rounding leaves it alone.\<close>

lemma float32_representable:
  assumes "8388608 \<le> m" and "m < 16777216" and "k \<le> 104"
  shows "float32 (of_int m * 2 powr (of_int k)) = Fin (of_int m * 2 powr (of_int k))"
proof -
  define x :: real where "x = of_int m * 2 powr (of_int k)"
  have xp: "0 < x" using assms(1) by (simp add: x_def)
  have "2 powr 23 * 2 powr (of_int k) \<le> x"
    using assms(1) by (simp add: x_def)
  then have lo: "2 powr (of_int (k + 23)) \<le> \<bar>x\<bar>" using xp by (simp add: powr_add mult.commute)
  have "real_of_int m < 2 powr 24" using assms(2) by simp
  then have "x < 2 powr 24 * 2 powr (of_int k)" unfolding x_def by (intro mult_strict_right_mono) simp_all
  then have hi: "\<bar>x\<bar> < 2 powr (of_int (k + 23 + 1))" using xp by (simp add: powr_add mult.commute)
  have q: "\<bar>x\<bar> / 2 powr (of_int k) = of_int m" using xp by (simp add: x_def)
  have "of_int m * 2 powr (of_int k) < (2::real) powr 24 * 2 powr 104"
  proof -
    have "(2::real) powr (of_int k) \<le> 2 powr 104"
      using assms(3) by (intro powr_mono) simp_all
    then have "of_int m * 2 powr (of_int k) \<le> of_int m * (2::real) powr 104"
      using assms(1) by (intro mult_left_mono) simp_all
    also have "\<dots> < 2 powr 24 * 2 powr 104"
      using assms(2) by (intro mult_strict_right_mono) simp_all
    finally show ?thesis .
  qed
  then have small: "\<not> (2::real) ^ 128 \<le> of_int m * 2 powr (of_int k)" by simp
  have x0: "x \<noteq> 0" using xp by simp
  have u: "(2::real) powr (of_int (k + 23) - 23) = 2 powr (of_int k)" by simp
  have "float32 x = Fin (sgn x * (of_int m * 2 powr (of_int k)))"
    unfolding float32_eval [OF x0 lo hi] Let_def u q round_to_even_of_int
    using small by simp
  then show ?thesis using xp by (simp add: x_def)
qed


text \<open>The float constants of the classifier.\<close>

lemma float32_thresholds:
  "float32 0.2 = Fin (13421773 / 2 ^ 26)"
  "float32 0.35 = Fin (11744051 / 2 ^ 25)"
  "float32 0.65 = Fin (10905190 / 2 ^ 24)"
  "float32 0.85 = Fin (14260634 / 2 ^ 24)"
  using float32_eval [of "0.2" "- 3"] float32_eval [of "0.35" "- 2"]
    float32_eval [of "0.65" "- 1"] float32_eval [of "0.85" "- 1"]
  by (simp_all add: round_to_even_def Let_def powr_minus)

lemma float32_one: "float32 1 = Fin 1"
  using float32_representable [of 8388608 "- 23"] by (simp add: powr_minus)


section \<open>Properties of the classifier\<close>

lemma band_color_inj: "band_color b1 = band_color b2 \<Longrightarrow> b1 = b2"
  by (cases b1; cases b2)
     (simp_all add: COLOR_WATER_def COLOR_SAND_def COLOR_GRASS_def COLOR_ROCK_def COLOR_SNOW_def)

lemma normalized_rounded:
  "calculate_normalized_height height max_alt min_alt
     = fround (fdiv (float32 (height - min_alt)) (float32 (max_alt - min_alt)))"
  by (simp add: calculate_normalized_height_def fsub_def)

lemma normalized_flat:
  "calculate_normalized_height height m m =
     (if m < height then PInf else if height < m then NInf else NaN)"
proof -
  consider "m < height" | "height < m" | "height = m" by linarith
  then show ?thesis
  proof cases
    case 1
    then have "0 < height - m" by simp
    from float32_pos [OF this] show ?thesis
      using 1 by (auto simp: normalized_rounded float32_zero signed_inf_def)
  next
    case 2
    then have "height - m < 0" by simp
    from float32_neg [OF this] show ?thesis
      using 2 by (auto simp: normalized_rounded float32_zero signed_inf_def)
  next
    case 3
    then show ?thesis by (simp add: normalized_rounded float32_zero signed_inf_def)
  qed
qed

lemma color_of_band:
  "calculate_height_color height max_alt min_alt
     = band_color (float_band_of (calculate_normalized_height height max_alt min_alt))"
  by (simp add: calculate_height_color_def float_band_of_def)

lemma normalized_lowest:
  assumes "min_alt < max_alt"
  shows "calculate_normalized_height min_alt max_alt min_alt = Fin 0"
proof -
  have "0 < max_alt - min_alt" using assms by simp
  from float32_pos [OF this] show ?thesis
    by (auto simp: normalized_rounded float32_zero)
qed

lemma normalized_highest:
  assumes "min_alt < max_alt"
  shows "calculate_normalized_height max_alt max_alt min_alt = Fin 1
         \<or> calculate_normalized_height max_alt max_alt min_alt = NaN"
proof -
  have "0 < max_alt - min_alt" using assms by simp
  from float32_pos [OF this] show ?thesis
    by (auto simp: normalized_rounded float32_one)
qed

text \<open>
  C4, as stated, at the elevation \<open>11744051 / 2^25\<close> between the bounds 0 and 1. The
  elevation is a float, the float that the constant \<open>0.35f\<close> of the source stands for; it
  is less than 0.35, so that the thresholds of the claim put it in Rock. The code
  normalises it to itself and finds it not less than \<open>0.35f\<close>: it returns the colour of
  Grass.
\<close>

theorem classify_thresholds_counterexample:
  "(0::real) < 1 \<and> (0::real) \<le> 11744051 / 2 ^ 25 \<and> (11744051 / 2 ^ 25 :: real) \<le> 1
   \<and> float32 (11744051 / 2 ^ 25) = Fin (11744051 / 2 ^ 25)
   \<and> float32 0.35 = Fin (11744051 / 2 ^ 25)
   \<and> calculate_normalized_height (11744051 / 2 ^ 25) 1 0 = Fin (11744051 / 2 ^ 25)
   \<and> calculate_height_color (11744051 / 2 ^ 25) 1 0 = COLOR_GRASS
   \<and> band_color (band_of ((11744051 / 2 ^ 25 - 0) / (1 - 0))) = COLOR_ROCK
   \<and> COLOR_GRASS \<noteq> COLOR_ROCK"
proof -
  have f: "float32 (11744051 / 2 ^ 25) = Fin (11744051 / 2 ^ 25)"
    using float32_representable [of 11744051 "- 25"] by (simp add: powr_minus)
  have n: "calculate_normalized_height (11744051 / 2 ^ 25) 1 0 = Fin (11744051 / 2 ^ 25)"
    using f by (simp add: normalized_rounded float32_one)
  have c: "calculate_height_color (11744051 / 2 ^ 25) 1 0 = COLOR_GRASS"
    unfolding calculate_height_color_def n float32_thresholds by simp
  have b: "band_color (band_of ((11744051 / 2 ^ 25 - 0) / (1 - 0))) = COLOR_ROCK"
    by (simp add: band_of_def)
  have d: "COLOR_GRASS \<noteq> COLOR_ROCK" by (simp add: COLOR_GRASS_def COLOR_ROCK_def)
  show ?thesis using f n c b d float32_thresholds(2) by simp
qed

text \<open>
  C4, amended. For \<open>min < max\<close> the colour returned is the colour of the band that the
  float constants \<open>0.2f\<close>, \<open>0.35f\<close>, \<open>0.65f\<close>, \<open>0.85f\<close> assign to the normalised height as
  the program computes it: the two differences and their quotient, each rounded to a
  float. The constants are \<open>13421773 / 2^26\<close>, \<open>11744051 / 2^25\<close>, \<open>10905190 / 2^24\<close> and
  \<open>14260634 / 2^24\<close>, the first and the last above the decimal they are written as, the
  two others below. The minimum elevation is Snow and the maximum is Water. The bands
  have pairwise different colours, so the colour determines the band.
\<close>

theorem classify_float_thresholds:
  assumes "min_alt < max_alt"
  shows "calculate_height_color height max_alt min_alt
           = band_color (float_band_of (fround (fdiv (float32 (height - min_alt))
                                                     (float32 (max_alt - min_alt)))))
         \<and> float32 0.2 = Fin (13421773 / 2 ^ 26) \<and> float32 0.35 = Fin (11744051 / 2 ^ 25)
         \<and> float32 0.65 = Fin (10905190 / 2 ^ 24) \<and> float32 0.85 = Fin (14260634 / 2 ^ 24)
         \<and> calculate_height_color min_alt max_alt min_alt = band_color Snow
         \<and> calculate_height_color max_alt max_alt min_alt = band_color Water
         \<and> inj band_color"
proof -
  have gen: "calculate_height_color height max_alt min_alt
           = band_color (float_band_of (fround (fdiv (float32 (height - min_alt))
                                                     (float32 (max_alt - min_alt)))))"
    by (simp only: color_of_band normalized_rounded)
  have lo: "calculate_height_color min_alt max_alt min_alt = band_color Snow"
    unfolding color_of_band normalized_lowest [OF assms] float_band_of_def float32_thresholds
    by simp
  have hi: "calculate_height_color max_alt max_alt min_alt = band_color Water"
    using normalized_highest [OF assms]
    unfolding color_of_band float_band_of_def float32_thresholds by auto
  have inj: "inj band_color" using band_color_inj by (auto simp: inj_def)
  show ?thesis
    by (intro conjI) (fact gen float32_thresholds lo hi inj)+
qed

theorem classify_float_thresholds_witness:
  "calculate_height_color 3 10 0 = COLOR_ROCK
   \<and> fround (fdiv (float32 (3 - 0)) (float32 (10 - 0))) = Fin (10066330 / 2 ^ 25)
   \<and> calculate_height_color 0 10 0 = COLOR_SNOW
   \<and> calculate_height_color 10 10 0 = COLOR_WATER"
proof -
  have a: "(0::real) < 10" by simp
  have f3: "float32 3 = Fin 3"
    using float32_representable [of 12582912 "- 22"] by (simp add: powr_minus)
  have f10: "float32 10 = Fin 10"
    using float32_representable [of 10485760 "- 20"] by (simp add: powr_minus)
  have q: "float32 (3 / 10) = Fin (10066330 / 2 ^ 25)"
    using float32_eval [of "3 / 10" "- 2"] by (simp add: round_to_even_def Let_def powr_minus)
  have t: "fround (fdiv (float32 (3 - 0)) (float32 (10 - 0))) = Fin (10066330 / 2 ^ 25)"
    by (simp add: f3 f10 q)
  show ?thesis
    using classify_float_thresholds [OF a, of 3] t
    unfolding float_band_of_def float32_thresholds by simp
qed

text \<open>
  C5, as stated, at the flat terrain of elevation 0: the normalisation divides 0 by 0.
  Its result is NaN, not a number, and it is this value that the threshold tests receive.
\<close>

theorem classify_flat_counterexample:
  "calculate_normalized_height 0 0 0 = fdiv (Fin 0) (Fin 0)
   \<and> calculate_normalized_height 0 0 0 = NaN"
  by (simp add: normalized_flat signed_inf_def)

text \<open>
  C5, amended. When \<open>max = min\<close> nothing guards the division: the normalised height is
  never a finite number (NaN when the elevation equals the bound, an infinity of the sign
  of \<open>elevation - min\<close> otherwise), no condition is signalled, and the threshold tests
  run on that value: every test fails on NaN and on \<open>+\<infinity>\<close>, which leaves
  \<open>COLOR_WATER\<close>, and the first test succeeds on \<open>-\<infinity>\<close>, which gives \<open>COLOR_SNOW\<close>.
\<close>

theorem classify_flat_unguarded:
  "calculate_normalized_height height m m
     = (if m < height then PInf else if height < m then NInf else NaN)
   \<and> calculate_height_color height m m
     = (if height < m then COLOR_SNOW else COLOR_WATER)"
  unfolding calculate_height_color_def normalized_flat float32_thresholds by simp

theorem classify_flat_unguarded_witness:
  "calculate_normalized_height 7 7 7 = NaN \<and> calculate_height_color 7 7 7 = COLOR_WATER"
  using classify_flat_unguarded [of 7 7] by simp

section \<open>Properties of loops\<close>

lemma for_loop_step:
  "i < bound \<Longrightarrow> 0 < stride \<Longrightarrow>
   for_loop i bound stride body s = for_loop (i + stride) bound stride body (body i s)"
  by (subst for_loop.simps) simp

lemma for_loop_exit: "\<not> i < bound \<Longrightarrow> for_loop i bound stride body s = s"
  by (subst for_loop.simps) simp

lemma for_loop_rule_aux:
  "0 < stride \<Longrightarrow> \<exists>k. i = start + k * stride \<Longrightarrow> I i s \<Longrightarrow>
   (\<And>i s. I i s \<Longrightarrow> visits start bound stride i \<Longrightarrow> I (i + stride) (body i s)) \<Longrightarrow>
   \<exists>j. bound \<le> j \<and> (\<exists>k. j = start + k * stride) \<and> I j (for_loop i bound stride body s)"
proof (induction i bound stride body s rule: for_loop.induct)
  case (1 i bound stride body s)
  show ?case
  proof (cases "i < bound")
    case True
    from "1.prems"(2) obtain k where k: "i = start + k * stride" by blast
    have b: "\<exists>k. i + stride = start + k * stride"
      using k by (intro exI [of _ "Suc k"]) simp
    have c: "I (i + stride) (body i s)"
      using "1.prems"(3) True "1.prems"(2) by (intro "1.prems"(4)) (simp_all add: visits_def)
    show ?thesis
      using "1.IH" [OF _ "1.prems"(1) b c "1.prems"(4)] True "1.prems"(1)
      by (simp add: for_loop_step)
  next
    case False
    have "bound \<le> i" using False by simp
    moreover have "I i (for_loop i bound stride body s)"
      using False "1.prems"(3) by (simp add: for_loop_exit)
    ultimately show ?thesis using "1.prems"(2) by blast
  qed
qed

lemma for_loop_rule:
  assumes "0 < stride" and "I start s"
    and "\<And>i s. I i s \<Longrightarrow> visits start bound stride i \<Longrightarrow> I (i + stride) (body i s)"
  shows "\<exists>j. bound \<le> j \<and> (\<exists>k. j = start + k * stride) \<and> I j (for_loop start bound stride body s)"
proof -
  have "\<exists>k. start = start + k * stride" by (intro exI [of _ 0]) simp
  from for_loop_rule_aux [of stride start start I s bound body, OF assms(1) this assms(2) assms(3)]
  show ?thesis by simp
qed

text \<open>A property that every iteration preserves holds after the loop.\<close>

lemma for_loop_preserves:
  assumes "0 < stride" and "P s"
    and "\<And>i s. P s \<Longrightarrow> visits start bound stride i \<Longrightarrow> P (body i s)"
  shows "P (for_loop start bound stride body s)"
  using for_loop_rule [of stride "\<lambda>i. P" start s bound body] assms by blast

text \<open>
  Coverage: if every iteration keeps \<open>Inv\<close>, establishes \<open>Q\<close> for its own index and keeps
  \<open>Q\<close> for the others, then after the loop \<open>Q\<close> holds for every index visited.
\<close>

lemma for_loop_cover:
  assumes pos: "0 < stride" and inv0: "Inv s0"
    and inv: "\<And>i s. visits start bound stride i \<Longrightarrow> Inv s \<Longrightarrow> Inv (body i s)"
    and est: "\<And>i s. visits start bound stride i \<Longrightarrow> Inv s \<Longrightarrow> Q i (body i s)"
    and pres: "\<And>i i' s. visits start bound stride i \<Longrightarrow> visits start bound stride i' \<Longrightarrow>
                 Inv s \<Longrightarrow> Q i' s \<Longrightarrow> Q i' (body i s)"
  shows "Inv (for_loop start bound stride body s0)
         \<and> (\<forall>i. visits start bound stride i \<longrightarrow> Q i (for_loop start bound stride body s0))"
proof -
  let ?I = "\<lambda>j s. Inv s \<and> (\<forall>i. visits start bound stride i \<and> i < j \<longrightarrow> Q i s)"
  have init: "?I start s0"
    using inv0 by (auto simp: visits_def)
  have step: "?I (j + stride) (body j s)" if "?I j s" and v: "visits start bound stride j" for j s
  proof (intro conjI allI impI)
    show "Inv (body j s)" using that inv by blast
  next
    fix i assume i: "visits start bound stride i \<and> i < j + stride"
    show "Q i (body j s)"
    proof (cases "i < j")
      case True
      then show ?thesis using that i pres by blast
    next
      case False
      obtain a b where ab: "i = start + a * stride" "j = start + b * stride"
        using i v by (auto simp: visits_def)
      have "a * stride < (b + 1) * stride" and "b * stride \<le> a * stride"
        using i False ab by auto
      then have "a < b + 1" and "b \<le> a"
        using pos by (simp_all only: mult_less_cancel2 mult_le_cancel2)
      then have "a = b" by simp
      then have "i = j" using ab by simp
      then show ?thesis using that est by blast
    qed
  qed
  from for_loop_rule [of stride ?I start s0 bound body, OF pos init step]
  obtain j where "bound \<le> j" "?I j (for_loop start bound stride body s0)" by blast
  then show ?thesis by (auto simp: visits_def)
qed

text \<open>The same for a loop nested in a loop, the inner one starting at \<open>ay x\<close>.\<close>

lemma for_loop2_preserves:
  assumes pos: "0 < sx" "0 < sy" and p0: "P s0"
    and pres: "\<And>x y s. visits ax bx sx x \<Longrightarrow> visits (ay x) bnd sy y \<Longrightarrow> P s \<Longrightarrow> P (body x y s)"
  shows "P (for_loop ax bx sx (\<lambda>x. for_loop (ay x) bnd sy (body x)) s0)"
proof (rule for_loop_preserves [where P = P, OF pos(1) p0])
  fix x s assume "P s" and "visits ax bx sx x"
  then show "P (for_loop (ay x) bnd sy (body x) s)"
    using pres by (intro for_loop_preserves [where P = P, OF pos(2)]) blast+
qed

lemma for_loop2_cover:
  assumes pos: "0 < sx" "0 < sy" and inv0: "Inv s0"
    and inv: "\<And>x y s. visits ax bx sx x \<Longrightarrow> visits (ay x) bnd sy y \<Longrightarrow> Inv s \<Longrightarrow> Inv (body x y s)"
    and est: "\<And>x y s. visits ax bx sx x \<Longrightarrow> visits (ay x) bnd sy y \<Longrightarrow> Inv s \<Longrightarrow> Q x y (body x y s)"
    and pres: "\<And>x y x' y' s. visits ax bx sx x \<Longrightarrow> visits (ay x) bnd sy y \<Longrightarrow>
                 Inv s \<Longrightarrow> Q x' y' s \<Longrightarrow> Q x' y' (body x y s)"
  shows "Inv (for_loop ax bx sx (\<lambda>x. for_loop (ay x) bnd sy (body x)) s0)
         \<and> (\<forall>x y. visits ax bx sx x \<and> visits (ay x) bnd sy y
                \<longrightarrow> Q x y (for_loop ax bx sx (\<lambda>x. for_loop (ay x) bnd sy (body x)) s0))"
proof -
  let ?inner = "\<lambda>x. for_loop (ay x) bnd sy (body x)"
  let ?Qx = "\<lambda>x s. \<forall>y. visits (ay x) bnd sy y \<longrightarrow> Q x y s"
  have a: "Inv (?inner x s)" if "visits ax bx sx x" "Inv s" for x s
    using that inv by (intro for_loop_preserves [where P = Inv, OF pos(2)]) blast+
  have b: "?Qx x (?inner x s)" if "visits ax bx sx x" "Inv s" for x s
  proof -
    have "Inv (?inner x s) \<and> (\<forall>y. visits (ay x) bnd sy y \<longrightarrow> Q x y (?inner x s))"
    proof (rule for_loop_cover [of sy Inv s "ay x" bnd "body x" "Q x", OF pos(2) that(2)])
      show "\<And>i s. visits (ay x) bnd sy i \<Longrightarrow> Inv s \<Longrightarrow> Inv (body x i s)"
        using inv that(1) by blast
      show "\<And>i s. visits (ay x) bnd sy i \<Longrightarrow> Inv s \<Longrightarrow> Q x i (body x i s)"
        using est that(1) by blast
      show "\<And>i i' s. visits (ay x) bnd sy i \<Longrightarrow> visits (ay x) bnd sy i' \<Longrightarrow> Inv s
              \<Longrightarrow> Q x i' s \<Longrightarrow> Q x i' (body x i s)"
        using pres that(1) by blast
    qed
    then show ?thesis by blast
  qed
  have c: "?Qx x' (?inner x s)" if "visits ax bx sx x" "Inv s" "?Qx x' s" for x x' s
  proof (intro allI impI)
    fix y' assume y': "visits (ay x') bnd sy y'"
    have "Inv (?inner x s) \<and> Q x' y' (?inner x s)"
    proof (rule for_loop_preserves [where P = "\<lambda>s. Inv s \<and> Q x' y' s", OF pos(2)])
      show "Inv s \<and> Q x' y' s" using that y' by blast
      show "\<And>i s. Inv s \<and> Q x' y' s \<Longrightarrow> visits (ay x) bnd sy i
              \<Longrightarrow> Inv (body x i s) \<and> Q x' y' (body x i s)"
        using inv pres that(1) by blast
    qed
    then show "Q x' y' (?inner x s)" by blast
  qed
  have "Inv (for_loop ax bx sx ?inner s0) \<and> (\<forall>x. visits ax bx sx x \<longrightarrow> ?Qx x (for_loop ax bx sx ?inner s0))"
  proof (rule for_loop_cover [of sx Inv s0 ax bx ?inner ?Qx, OF pos(1) inv0])
    show "\<And>i s. visits ax bx sx i \<Longrightarrow> Inv s \<Longrightarrow> Inv (?inner i s)" using a by blast
    show "\<And>i s. visits ax bx sx i \<Longrightarrow> Inv s \<Longrightarrow> ?Qx i (?inner i s)" using b by blast
    show "\<And>i i' s. visits ax bx sx i \<Longrightarrow> visits ax bx sx i' \<Longrightarrow> Inv s \<Longrightarrow> ?Qx i' s
            \<Longrightarrow> ?Qx i' (?inner i s)" using c by blast
  qed
  then show ?thesis by blast
qed

section \<open>Properties of the noise source and of the cell updates\<close>

lemma calculate_noise_state:
  "snd (calculate_noise e amplitude s) = s\<lparr>rand_calls := rand_calls s + 1\<rparr>"
  by (simp add: calculate_noise_def rand_def)

lemma calculate_noise_value:
  "fst (calculate_noise e amplitude s)
     = (real (rand_values e (rand_calls s)) / real (RAND_MAX e) * 2 - 1) * amplitude"
  by (simp add: calculate_noise_def rand_def)

lemma calculate_noise_bound:
  assumes "rand_ok e" and "0 \<le> amplitude"
  shows "\<bar>fst (calculate_noise e amplitude s)\<bar> \<le> amplitude"
proof -
  define q where "q = real (rand_values e (rand_calls s)) / real (RAND_MAX e)"
  have "0 \<le> q" by (simp add: q_def)
  moreover have "q \<le> 1" using assms(1) by (simp add: q_def rand_ok_def)
  ultimately have "\<bar>q * 2 - 1\<bar> \<le> 1" by linarith
  then have "\<bar>q * 2 - 1\<bar> * \<bar>amplitude\<bar> \<le> 1 * \<bar>amplitude\<bar>"
    by (intro mult_right_mono) simp_all
  then show ?thesis using assms(2) by (simp add: calculate_noise_value abs_mult q_def)
qed

lemma square_cell_terrain:
  "terrain (square_cell e len half amplitude x y s)
     = (terrain s)((x + half, y + half) :=
          (terrain s (x, y) + terrain s (x + len, y) + terrain s (x, y + len)
             + terrain s (x + len, y + len)) / 4
          + fst (calculate_noise e amplitude s))"
  by (simp add: square_cell_def calculate_noise_def rand_def)

lemma diamond_cell_terrain:
  "terrain (diamond_cell e half amplitude x y s)
     = (terrain s)((x, y) :=
          fst (diamond_neighbors e half x y (terrain s))
            / real (snd (diamond_neighbors e half x y (terrain s)))
          + fst (calculate_noise e amplitude s))"
  by (simp add: diamond_cell_def calculate_noise_def rand_def split: prod.splits)

section \<open>Residues modulo the step\<close>

lemma mod_step_cases:
  assumes "0 < (h::nat)"
  shows "(k * h) mod (2 * h) = 0 \<or> (k * h) mod (2 * h) = h"
proof (cases "even k")
  case True
  then obtain m where "k = 2 * m" by (auto elim: evenE)
  then show ?thesis by simp
next
  case False
  then obtain m where "k = 2 * m + 1" by (auto elim: oddE)
  then have "k * h = h + m * (2 * h)" by (simp add: algebra_simps)
  then have "(k * h) mod (2 * h) = h mod (2 * h)" by (simp only: mod_mult_self1)
  then show ?thesis using assms by simp
qed

lemma mod_step_add_half:
  assumes "0 < (h::nat)"
  shows "x mod (2 * h) = 0 \<Longrightarrow> (x + h) mod (2 * h) = h"
    and "x mod (2 * h) = h \<Longrightarrow> (x + h) mod (2 * h) = 0"
proof -
  have e: "(x + h) mod (2 * h) = (x mod (2 * h) + h) mod (2 * h)"
    by (simp add: mod_add_left_eq)
  show "x mod (2 * h) = 0 \<Longrightarrow> (x + h) mod (2 * h) = h" using e assms by simp
  show "x mod (2 * h) = h \<Longrightarrow> (x + h) mod (2 * h) = 0" using e by (simp add: mult_2 [symmetric])
qed

lemma mod_step_sub_half:
  assumes "0 < (h::nat)" and "h \<le> x"
  shows "x mod (2 * h) = 0 \<Longrightarrow> (x - h) mod (2 * h) = h"
    and "x mod (2 * h) = h \<Longrightarrow> (x - h) mod (2 * h) = 0"
proof -
  have x: "x div (2 * h) * (2 * h) + x mod (2 * h) = x" by (rule div_mult_mod_eq)
  {
    assume z: "x mod (2 * h) = 0"
    then have xe: "x = x div (2 * h) * (2 * h)" using x by simp
    have "x div (2 * h) \<noteq> 0" using xe assms by (intro notI) simp
    then obtain m where "x div (2 * h) = Suc m" by (cases "x div (2 * h)") auto
    then have "x = (2 * h) + m * (2 * h)" using xe by simp
    then have "x - h = h + m * (2 * h)" by simp
    then have "(x - h) mod (2 * h) = h mod (2 * h)" by (simp only: mod_mult_self1)
    then show "(x - h) mod (2 * h) = h" using assms by simp
  }
  {
    assume z: "x mod (2 * h) = h"
    then have "x - h = x div (2 * h) * (2 * h)" using x by simp
    then show "(x - h) mod (2 * h) = 0" by (metis mod_mult_self2_is_0)
  }
qed

section \<open>One subdivision: which cells are written\<close>

lemma square_step_frame:
  assumes h: "0 < half" and pq: "\<not> (p mod (2 * half) = half \<and> q mod (2 * half) = half)"
  shows "terrain (square_step e (2 * half) half amplitude s) (p, q) = terrain s (p, q)"
  unfolding square_step_def
proof (rule for_loop2_preserves [where P = "\<lambda>s'. terrain s' (p, q) = terrain s (p, q)"])
  fix x y and s' :: world
  assume x: "visits 0 (ITERATIONS e - 1) (2 * half) x"
    and y: "visits 0 (ITERATIONS e - 1) (2 * half) y"
    and s': "terrain s' (p, q) = terrain s (p, q)"
  have "x mod (2 * half) = 0" "y mod (2 * half) = 0"
    using x y by (auto simp: visits_def)
  then have "(x + half) mod (2 * half) = half" "(y + half) mod (2 * half) = half"
    using mod_step_add_half(1) [OF h] by simp_all
  then have "(x + half, y + half) \<noteq> (p, q)" using pq by auto
  then show "terrain (square_cell e (2 * half) half amplitude x y s') (p, q) = terrain s (p, q)"
    using s' by (auto simp: square_cell_terrain)
qed (use h in simp_all)

text \<open>The cells the diamond step visits: one coordinate on the coarse grid, the other half a step off.\<close>

lemma diamond_visit_residues:
  assumes h: "0 < half"
    and x: "visits 0 n half x" and y: "visits ((x + half) mod (2 * half)) n (2 * half) y"
  shows "(x mod (2 * half) = 0 \<and> y mod (2 * half) = half)
         \<or> (x mod (2 * half) = half \<and> y mod (2 * half) = 0)"
proof -
  obtain k where "x = k * half" using x by (auto simp: visits_def)
  then have xc: "x mod (2 * half) = 0 \<or> x mod (2 * half) = half"
    using mod_step_cases [OF h] by simp
  obtain j where "y = (x + half) mod (2 * half) + j * (2 * half)"
    using y by (auto simp: visits_def)
  then have "y mod (2 * half) = (x + half) mod (2 * half)"
    by (simp only: mod_mult_self1 mod_mod_trivial)
  then show ?thesis using xc mod_step_add_half [OF h, of x] by auto
qed

lemma diamond_step_frame:
  assumes h: "0 < half"
    and pq: "\<not> ((p mod (2 * half) = 0 \<and> q mod (2 * half) = half)
                \<or> (p mod (2 * half) = half \<and> q mod (2 * half) = 0))"
  shows "terrain (diamond_step e (2 * half) half amplitude s) (p, q) = terrain s (p, q)"
  unfolding diamond_step_def
proof (rule for_loop2_preserves [where P = "\<lambda>s'. terrain s' (p, q) = terrain s (p, q)"])
  fix x y and s' :: world
  assume x: "visits 0 (ITERATIONS e) half x"
    and y: "visits ((x + half) mod (2 * half)) (ITERATIONS e) (2 * half) y"
    and s': "terrain s' (p, q) = terrain s (p, q)"
  have "(x, y) \<noteq> (p, q)"
    using diamond_visit_residues [OF h x y] pq by auto
  then show "terrain (diamond_cell e half amplitude x y s') (p, q) = terrain s (p, q)"
    using s' by (auto simp: diamond_cell_terrain)
qed (use h in simp_all)

section \<open>One subdivision: how large the written values are\<close>

lemma diamond_neighbors_eq:
  "diamond_neighbors e half x y t =
     ((if half \<le> x then t (x - half, y) else 0)
      + (if x + half < ITERATIONS e then t (x + half, y) else 0)
      + (if half \<le> y then t (x, y - half) else 0)
      + (if y + half < ITERATIONS e then t (x, y + half) else 0),
      (if half \<le> x then 1 else 0)
      + (if x + half < ITERATIONS e then 1 else 0)
      + (if half \<le> y then 1 else 0)
      + (if y + half < ITERATIONS e then 1 else 0))"
  by (simp add: diamond_neighbors_def)

lemma diamond_count_ge_1:
  assumes "2 * half < ITERATIONS e"
  shows "1 \<le> snd (diamond_neighbors e half x y t)"
proof -
  have "half \<le> x \<or> x + half < ITERATIONS e" using assms by linarith
  then show ?thesis by (auto simp: diamond_neighbors_eq)
qed

lemma diamond_average_bound:
  assumes n: "2 * half < ITERATIONS e"
    and a: "half \<le> x \<Longrightarrow> \<bar>t (x - half, y)\<bar> \<le> B"
    and b: "x + half < ITERATIONS e \<Longrightarrow> \<bar>t (x + half, y)\<bar> \<le> B"
    and c: "half \<le> y \<Longrightarrow> \<bar>t (x, y - half)\<bar> \<le> B"
    and d: "y + half < ITERATIONS e \<Longrightarrow> \<bar>t (x, y + half)\<bar> \<le> B"
  shows "\<bar>fst (diamond_neighbors e half x y t) / real (snd (diamond_neighbors e half x y t))\<bar> \<le> B"
proof -
  define v1 where "v1 = (if half \<le> x then t (x - half, y) else 0)"
  define v2 where "v2 = (if x + half < ITERATIONS e then t (x + half, y) else 0)"
  define v3 where "v3 = (if half \<le> y then t (x, y - half) else 0)"
  define v4 where "v4 = (if y + half < ITERATIONS e then t (x, y + half) else 0)"
  define c1 :: nat where "c1 = (if half \<le> x then 1 else 0)"
  define c2 :: nat where "c2 = (if x + half < ITERATIONS e then 1 else 0)"
  define c3 :: nat where "c3 = (if half \<le> y then 1 else 0)"
  define c4 :: nat where "c4 = (if y + half < ITERATIONS e then 1 else 0)"
  have s: "fst (diamond_neighbors e half x y t) = v1 + v2 + v3 + v4"
    and k: "snd (diamond_neighbors e half x y t) = c1 + c2 + c3 + c4"
    by (simp_all add: diamond_neighbors_eq v1_def v2_def v3_def v4_def c1_def c2_def c3_def c4_def)
  have "1 \<le> c1 + c2 + c3 + c4"
    using diamond_count_ge_1 [OF n, of x y t] by (simp only: k)
  then have kpos: "0 < real (c1 + c2 + c3 + c4)" by simp
  have e1: "\<bar>v1\<bar> \<le> real c1 * B" using a by (simp add: v1_def c1_def)
  have e2: "\<bar>v2\<bar> \<le> real c2 * B" using b by (simp add: v2_def c2_def)
  have e3: "\<bar>v3\<bar> \<le> real c3 * B" using c by (simp add: v3_def c3_def)
  have e4: "\<bar>v4\<bar> \<le> real c4 * B" using d by (simp add: v4_def c4_def)
  have "\<bar>v1 + v2 + v3 + v4\<bar> \<le> \<bar>v1\<bar> + \<bar>v2\<bar> + \<bar>v3\<bar> + \<bar>v4\<bar>" by linarith
  also have "\<dots> \<le> real c1 * B + real c2 * B + real c3 * B + real c4 * B"
    using e1 e2 e3 e4 by linarith
  also have "\<dots> = real (c1 + c2 + c3 + c4) * B" by (simp add: algebra_simps)
  finally have "\<bar>v1 + v2 + v3 + v4\<bar> / real (c1 + c2 + c3 + c4) \<le> B"
    using kpos by (simp add: pos_divide_le_eq mult.commute)
  then show ?thesis by (simp only: s k abs_divide abs_of_nat)
qed


lemma visits_step_room:
  assumes "visits 0 (n - 1) len x" and "len dvd (n - 1)"
  shows "x + len < n"
proof -
  obtain k where k: "x = k * len" and lt: "x < n - 1"
    using assms(1) by (auto simp: visits_def)
  from assms(2) obtain m where "n - 1 = len * m" by (rule dvdE)
  then have m: "n - 1 = m * len" by (simp add: mult.commute)
  have "k * len < m * len" using k lt m by simp
  then have "k < m" by simp
  then have "Suc k * len \<le> m * len" by (intro mult_le_mono1) simp
  moreover have "n = m * len + 1" using m lt by simp
  ultimately show ?thesis using k by simp
qed

lemma square_step_bound:
  assumes r: "rand_ok e" and a: "0 \<le> amplitude" and h: "0 < half"
    and d: "(2 * half) dvd (ITERATIONS e - 1)"
    and g: "grid_bounded e (2 * half) B (terrain s)"
    and p: "p < ITERATIONS e" "p mod (2 * half) = half"
    and q: "q < ITERATIONS e" "q mod (2 * half) = half"
  shows "\<bar>terrain (square_step e (2 * half) half amplitude s) (p, q)\<bar> \<le> B + amplitude"
proof -
  let ?n = "ITERATIONS e"
  let ?len = "2 * half"
  let ?Inv = "\<lambda>s' :: world. grid_bounded e ?len B (terrain s')"
  let ?Q = "\<lambda>x y (s' :: world). \<bar>terrain s' (x + half, y + half)\<bar> \<le> B + amplitude"
  let ?body = "square_cell e ?len half amplitude"
  have off: "(x + half) mod ?len = half" if "visits 0 (?n - 1) ?len x" for x
  proof -
    have "x mod ?len = 0" using that by (auto simp: visits_def)
    then show ?thesis using mod_step_add_half(1) [OF h] by simp
  qed
  have val: "\<bar>(terrain s' (x, y) + terrain s' (x + ?len, y) + terrain s' (x, y + ?len)
               + terrain s' (x + ?len, y + ?len)) / 4
             + fst (calculate_noise e amplitude s')\<bar> \<le> B + amplitude"
    if x: "visits 0 (?n - 1) ?len x" and y: "visits 0 (?n - 1) ?len y" and i: "?Inv s'"
    for x y and s' :: world
  proof -
    have xm: "x mod ?len = 0" "(x + ?len) mod ?len = 0" "x < ?n" "x + ?len < ?n"
      using x visits_step_room [OF x d] by (auto simp: visits_def)
    have ym: "y mod ?len = 0" "(y + ?len) mod ?len = 0" "y < ?n" "y + ?len < ?n"
      using y visits_step_room [OF y d] by (auto simp: visits_def)
    have c1: "\<bar>terrain s' (x, y)\<bar> \<le> B"
      and c2: "\<bar>terrain s' (x + ?len, y)\<bar> \<le> B"
      and c3: "\<bar>terrain s' (x, y + ?len)\<bar> \<le> B"
      and c4: "\<bar>terrain s' (x + ?len, y + ?len)\<bar> \<le> B"
      using i xm ym unfolding grid_bounded_def by simp_all
    have nz: "\<bar>fst (calculate_noise e amplitude s')\<bar> \<le> amplitude"
      by (rule calculate_noise_bound [OF r a])
    have "\<bar>terrain s' (x, y) + terrain s' (x + ?len, y) + terrain s' (x, y + ?len)
            + terrain s' (x + ?len, y + ?len)\<bar> \<le> 4 * B"
      using c1 c2 c3 c4 by linarith
    then have "\<bar>(terrain s' (x, y) + terrain s' (x + ?len, y) + terrain s' (x, y + ?len)
            + terrain s' (x + ?len, y + ?len)) / 4\<bar> \<le> B"
      by (simp only: abs_divide) simp
    then show ?thesis using nz by linarith
  qed
  have cover: "?Inv (for_loop 0 (?n - 1) ?len (\<lambda>x. for_loop 0 (?n - 1) ?len (?body x)) s)
        \<and> (\<forall>x y. visits 0 (?n - 1) ?len x \<and> visits 0 (?n - 1) ?len y
               \<longrightarrow> ?Q x y (for_loop 0 (?n - 1) ?len (\<lambda>x. for_loop 0 (?n - 1) ?len (?body x)) s))"
  proof (rule for_loop2_cover [where Inv = ?Inv and Q = ?Q and ay = "\<lambda>x. 0"])
    show "0 < ?len" "0 < ?len" using h by simp_all
    show "?Inv s" by (rule g)
  next
    fix x y and s' :: world
    assume x: "visits 0 (?n - 1) ?len x" and y: "visits 0 (?n - 1) ?len y" and i: "?Inv s'"
    show "?Inv (?body x y s')"
      unfolding grid_bounded_def
    proof (intro allI impI)
      fix p' q' assume pq: "p' < ?n \<and> q' < ?n \<and> p' mod ?len = 0 \<and> q' mod ?len = 0"
      then have "(x + half, y + half) \<noteq> (p', q')" using off [OF x] h by auto
      then have "terrain (?body x y s') (p', q') = terrain s' (p', q')"
        by (auto simp: square_cell_terrain)
      then show "\<bar>terrain (?body x y s') (p', q')\<bar> \<le> B"
        using i pq unfolding grid_bounded_def by simp
    qed
    show "?Q x y (?body x y s')"
      using val [OF x y i] by (simp add: square_cell_terrain)
    fix x' y' assume "?Q x' y' s'"
    then show "?Q x' y' (?body x y s')"
      using val [OF x y i] by (simp add: square_cell_terrain)
  qed
  have vp: "visits 0 (?n - 1) ?len (p - half)"
    and vq: "visits 0 (?n - 1) ?len (q - half)"
    and pe: "p - half + half = p" and qe: "q - half + half = q"
  proof -
    have pd: "p div ?len * ?len + p mod ?len = p" and qd: "q div ?len * ?len + q mod ?len = q"
      by (rule div_mult_mod_eq)+
    show "visits 0 (?n - 1) ?len (p - half)"
      unfolding visits_def using pd p h by (intro conjI exI [of _ "p div ?len"]) simp_all
    show "visits 0 (?n - 1) ?len (q - half)"
      unfolding visits_def using qd q h by (intro conjI exI [of _ "q div ?len"]) simp_all
    show "p - half + half = p" using pd p by simp
    show "q - half + half = q" using qd q by simp
  qed
  from cover have "\<forall>x y. visits 0 (?n - 1) ?len x \<and> visits 0 (?n - 1) ?len y
      \<longrightarrow> ?Q x y (square_step e ?len half amplitude s)"
    unfolding square_step_def by (rule conjunct2)
  then have "?Q (p - half) (q - half) (square_step e ?len half amplitude s)"
    using vp vq by (elim allE [of _ "p - half"] allE [of _ "q - half"]) simp
  then show ?thesis by (simp only: pe qe)
qed


lemma diamond_step_bound:
  assumes r: "rand_ok e" and a: "0 \<le> amplitude" and h: "0 < half"
    and n: "2 * half < ITERATIONS e"
    and g: "\<And>p q. p < ITERATIONS e \<Longrightarrow> q < ITERATIONS e \<Longrightarrow>
              (p mod (2 * half) = 0 \<and> q mod (2 * half) = 0)
              \<or> (p mod (2 * half) = half \<and> q mod (2 * half) = half) \<Longrightarrow>
              \<bar>terrain s (p, q)\<bar> \<le> B"
    and p: "p < ITERATIONS e" and q: "q < ITERATIONS e"
    and pq: "(p mod (2 * half) = 0 \<and> q mod (2 * half) = half)
             \<or> (p mod (2 * half) = half \<and> q mod (2 * half) = 0)"
  shows "\<bar>terrain (diamond_step e (2 * half) half amplitude s) (p, q)\<bar> \<le> B + amplitude"
proof -
  let ?n = "ITERATIONS e"
  let ?len = "2 * half"
  let ?R = "\<lambda>p q. (p mod ?len = 0 \<and> q mod ?len = 0) \<or> (p mod ?len = half \<and> q mod ?len = half)"
  let ?Inv = "\<lambda>s' :: world. \<forall>p q. p < ?n \<and> q < ?n \<and> ?R p q \<longrightarrow> \<bar>terrain s' (p, q)\<bar> \<le> B"
  let ?Q = "\<lambda>x y (s' :: world). \<bar>terrain s' (x, y)\<bar> \<le> B + amplitude"
  let ?body = "diamond_cell e half amplitude"
  let ?ay = "\<lambda>x. (x + half) mod ?len"
  have val: "\<bar>fst (diamond_neighbors e half x y (terrain s'))
               / real (snd (diamond_neighbors e half x y (terrain s')))
             + fst (calculate_noise e amplitude s')\<bar> \<le> B + amplitude"
    if x: "visits 0 ?n half x" and y: "visits (?ay x) ?n ?len y" and i: "?Inv s'"
    for x y and s' :: world
  proof -
    have res: "(x mod ?len = 0 \<and> y mod ?len = half) \<or> (x mod ?len = half \<and> y mod ?len = 0)"
      by (rule diamond_visit_residues [OF h x y])
    have lt: "x < ?n" "y < ?n" using x y by (auto simp: visits_def)
    have ib: "\<bar>terrain s' (p', q')\<bar> \<le> B" if "p' < ?n" "q' < ?n" "?R p' q'" for p' q'
      using i [rule_format, of p' q'] that by simp
    have n1: "\<bar>terrain s' (x - half, y)\<bar> \<le> B" if "half \<le> x"
    proof -
      have "?R (x - half) y" using res mod_step_sub_half [OF h that] by auto
      moreover have "x - half < ?n" using lt by simp
      ultimately show ?thesis using lt by (intro ib) simp_all
    qed
    have n2: "\<bar>terrain s' (x + half, y)\<bar> \<le> B" if "x + half < ?n"
    proof -
      have "?R (x + half) y" using res mod_step_add_half [OF h, of x] by auto
      then show ?thesis using lt that by (intro ib) simp_all
    qed
    have n3: "\<bar>terrain s' (x, y - half)\<bar> \<le> B" if "half \<le> y"
    proof -
      have "?R x (y - half)" using res mod_step_sub_half [OF h that] by auto
      moreover have "y - half < ?n" using lt by simp
      ultimately show ?thesis using lt by (intro ib) simp_all
    qed
    have n4: "\<bar>terrain s' (x, y + half)\<bar> \<le> B" if "y + half < ?n"
    proof -
      have "?R x (y + half)" using res mod_step_add_half [OF h, of y] by auto
      then show ?thesis using lt that by (intro ib) simp_all
    qed
    have "\<bar>fst (diamond_neighbors e half x y (terrain s'))
            / real (snd (diamond_neighbors e half x y (terrain s')))\<bar> \<le> B"
      by (rule diamond_average_bound [OF n n1 n2 n3 n4])
    moreover have "\<bar>fst (calculate_noise e amplitude s')\<bar> \<le> amplitude"
      by (rule calculate_noise_bound [OF r a])
    ultimately show ?thesis by linarith
  qed
  have cover: "?Inv (for_loop 0 ?n half (\<lambda>x. for_loop (?ay x) ?n ?len (?body x)) s)
        \<and> (\<forall>x y. visits 0 ?n half x \<and> visits (?ay x) ?n ?len y
               \<longrightarrow> ?Q x y (for_loop 0 ?n half (\<lambda>x. for_loop (?ay x) ?n ?len (?body x)) s))"
  proof (rule for_loop2_cover [where Inv = ?Inv and Q = ?Q and ay = ?ay])
    show "0 < half" "0 < ?len" using h by simp_all
    show "?Inv s" by (intro allI impI g) simp_all
  next
    fix x y and s' :: world
    assume x: "visits 0 ?n half x" and y: "visits (?ay x) ?n ?len y" and i: "?Inv s'"
    have res: "(x mod ?len = 0 \<and> y mod ?len = half) \<or> (x mod ?len = half \<and> y mod ?len = 0)"
      by (rule diamond_visit_residues [OF h x y])
    show "?Inv (?body x y s')"
    proof (intro allI impI)
      fix p' q' assume c: "p' < ?n \<and> q' < ?n \<and> ?R p' q'"
      then have "(x, y) \<noteq> (p', q')" using res h by auto
      then have "terrain (?body x y s') (p', q') = terrain s' (p', q')"
        by (auto simp: diamond_cell_terrain)
      then show "\<bar>terrain (?body x y s') (p', q')\<bar> \<le> B"
        using i [rule_format, of p' q'] c by simp
    qed
    show "?Q x y (?body x y s')"
      using val [OF x y i] by (simp add: diamond_cell_terrain)
    fix x' y' assume "?Q x' y' s'"
    then show "?Q x' y' (?body x y s')"
      using val [OF x y i] by (simp add: diamond_cell_terrain)
  qed
  have pd: "p div ?len * ?len + p mod ?len = p" and qd: "q div ?len * ?len + q mod ?len = q"
    by (rule div_mult_mod_eq)+
  have vp: "visits 0 ?n half p"
  proof (cases "p mod ?len = 0")
    case True
    then have "p = 0 + (2 * (p div ?len)) * half" using pd by simp
    then show ?thesis unfolding visits_def using p by (intro conjI exI [of _ "2 * (p div ?len)"])
  next
    case False
    then have "p mod ?len = half" using pq by simp
    then have "p = 0 + (2 * (p div ?len) + 1) * half" using pd by simp
    then show ?thesis unfolding visits_def using p by (intro conjI exI [of _ "2 * (p div ?len) + 1"])
  qed
  have "?ay p = q mod ?len" using pq mod_step_add_half [OF h, of p] by auto
  then have "q = ?ay p + (q div ?len) * ?len" using qd by simp
  then have vq: "visits (?ay p) ?n ?len q"
    unfolding visits_def using q by (intro conjI exI [of _ "q div ?len"])
  from cover have "\<forall>x y. visits 0 ?n half x \<and> visits (?ay x) ?n ?len y
      \<longrightarrow> ?Q x y (diamond_step e ?len half amplitude s)"
    unfolding diamond_step_def by (rule conjunct2)
  then show ?thesis using vp vq by (elim allE [of _ p] allE [of _ q]) simp
qed

text \<open>
  One pass of the \<open>while\<close> loop: from a bound on the cells of the grid of step
  \<open>2 * half\<close> to a bound on the cells of the grid of step \<open>half\<close>.
\<close>

lemma subdivision_bound:
  assumes r: "rand_ok e" and a: "0 \<le> amplitude" and h: "0 < half"
    and n: "1 < ITERATIONS e" and d: "(2 * half) dvd (ITERATIONS e - 1)"
    and g: "grid_bounded e (2 * half) B (terrain s)"
  shows "grid_bounded e half (B + 2 * amplitude)
           (terrain (diamond_step e (2 * half) half amplitude
                      (square_step e (2 * half) half amplitude s)))"
  unfolding grid_bounded_def
proof (intro allI impI)
  let ?n = "ITERATIONS e"
  let ?len = "2 * half"
  let ?s1 = "square_step e ?len half amplitude s"
  let ?s2 = "diamond_step e ?len half amplitude ?s1"
  fix p q assume c: "p < ?n \<and> q < ?n \<and> p mod half = 0 \<and> q mod half = 0"
  have lt: "2 * half < ?n"
  proof -
    have "?len \<le> ?n - 1" using d n by (intro dvd_imp_le) simp_all
    then show ?thesis using n by simp
  qed
  have after_square: "\<bar>terrain ?s1 (p', q')\<bar> \<le> B + amplitude"
    if "p' < ?n" "q' < ?n"
      "(p' mod ?len = 0 \<and> q' mod ?len = 0) \<or> (p' mod ?len = half \<and> q' mod ?len = half)"
    for p' q'
  proof (cases "p' mod ?len = half \<and> q' mod ?len = half")
    case True
    then show ?thesis using that by (intro square_step_bound [OF r a h d g]) simp_all
  next
    case False
    then have "terrain ?s1 (p', q') = terrain s (p', q')"
      by (rule square_step_frame [OF h])
    moreover have "\<bar>terrain s (p', q')\<bar> \<le> B"
      using g [unfolded grid_bounded_def, rule_format, of p' q'] that False by simp
    ultimately show ?thesis using a by simp
  qed
  have "p = (p div half) * half" "q = (q div half) * half"
    using div_mult_mod_eq [of p half] div_mult_mod_eq [of q half] c by simp_all
  then obtain kp kq where "p = kp * half" "q = kq * half" by blast
  then have pc: "p mod ?len = 0 \<or> p mod ?len = half" and qc: "q mod ?len = 0 \<or> q mod ?len = half"
    using mod_step_cases [OF h] by simp_all
  show "\<bar>terrain ?s2 (p, q)\<bar> \<le> B + 2 * amplitude"
  proof (cases "(p mod ?len = 0 \<and> q mod ?len = half) \<or> (p mod ?len = half \<and> q mod ?len = 0)")
    case True
    have "\<bar>terrain ?s2 (p, q)\<bar> \<le> (B + amplitude) + amplitude"
      using c True by (intro diamond_step_bound [OF r a h lt after_square]) simp_all
    then show ?thesis by simp
  next
    case False
    then have "terrain ?s2 (p, q) = terrain ?s1 (p, q)"
      by (rule diamond_step_frame [OF h])
    moreover have "\<bar>terrain ?s1 (p, q)\<bar> \<le> B + amplitude"
      using c pc qc False by (intro after_square) auto
    ultimately show ?thesis using a by simp
  qed
qed

section \<open>The whole generation loop\<close>

lemma generate_loop_exit: "\<not> 1 < len \<Longrightarrow> generate_loop e len amplitude s = Some (len, amplitude, s)"
  by (subst generate_loop.simps) simp

lemma generate_loop_pass:
  "1 < len \<Longrightarrow>
   generate_loop e len amplitude s =
     generate_loop e (len div 2) (amplitude * 2 powr (- ROUGHNESS e))
       (diamond_step e len (len div 2) amplitude (square_step e len (len div 2) amplitude s))"
  by (subst generate_loop.simps) (simp add: generate_pass_def Let_def)

lemma generate_loop_pass_pow2:
  "generate_loop e (2 ^ Suc j) amplitude s =
     generate_loop e (2 ^ j) (amplitude * 2 powr (- ROUGHNESS e))
       (diamond_step e (2 * 2 ^ j) (2 ^ j) amplitude (square_step e (2 * 2 ^ j) (2 ^ j) amplitude s))"
proof -
  have "(0::nat) < 2 ^ j" by simp
  then have "(1::nat) < 2 * 2 ^ j" by linarith
  then have "(1::nat) < 2 ^ Suc j" by simp
  from generate_loop_pass [OF this] show ?thesis by simp
qed

text \<open>
  The loop exits with step 1, and it never writes a cell both of whose coordinates are
  multiples of the step it started with.
\<close>

lemma generate_loop_pow2:
  "\<exists>s'. generate_loop e (2 ^ j) amplitude s = Some (1, amplitude * (2 powr (- ROUGHNESS e)) ^ j, s')
        \<and> (\<forall>p q. p mod 2 ^ j = 0 \<and> q mod 2 ^ j = 0 \<longrightarrow> terrain s' (p, q) = terrain s (p, q))"
proof (induction j arbitrary: amplitude s)
  case 0
  show ?case by (simp add: generate_loop_exit)
next
  case (Suc j)
  let ?s1 = "square_step e (2 * 2 ^ j) (2 ^ j) amplitude s"
  let ?s2 = "diamond_step e (2 * 2 ^ j) (2 ^ j) amplitude ?s1"
  from Suc.IH [of "amplitude * 2 powr (- ROUGHNESS e)" ?s2]
  obtain s' where run: "generate_loop e (2 ^ j) (amplitude * 2 powr (- ROUGHNESS e)) ?s2
        = Some (1, amplitude * 2 powr (- ROUGHNESS e) * (2 powr (- ROUGHNESS e)) ^ j, s')"
    and fr0: "\<forall>p q. p mod 2 ^ j = 0 \<and> q mod 2 ^ j = 0 \<longrightarrow> terrain s' (p, q) = terrain ?s2 (p, q)"
    by (elim exE conjE)
  have fr: "terrain s' (p, q) = terrain ?s2 (p, q)" if "p mod 2 ^ j = 0" "q mod 2 ^ j = 0" for p q
    using fr0 [rule_format, of p q] that by simp
  have h: "(0::nat) < 2 ^ j" by simp
  have keep: "terrain s' (p, q) = terrain s (p, q)"
    if "p mod 2 ^ Suc j = 0" "q mod 2 ^ Suc j = 0" for p q
  proof -
    have pm: "p mod (2 * 2 ^ j) = 0" and qm: "q mod (2 * 2 ^ j) = 0" using that by simp_all
    have "p mod 2 ^ j = 0" "q mod 2 ^ j = 0"
      using pm qm by (metis dvd_triv_right mod_0_imp_dvd dvd_trans dvd_imp_mod_0)+
    then have "terrain s' (p, q) = terrain ?s2 (p, q)" by (intro fr)
    also have "\<dots> = terrain ?s1 (p, q)"
      using pm qm h by (intro diamond_step_frame [OF h]) simp
    also have "\<dots> = terrain s (p, q)"
      using pm qm h by (intro square_step_frame [OF h]) simp
    finally show ?thesis .
  qed
  show ?case
    using run keep by (simp only: generate_loop_pass_pow2) (auto simp: mult.assoc)
qed


lemma geometric_shift:
  fixes d :: real
  shows "(\<Sum>i<Suc j. d ^ i) = 1 + d * (\<Sum>i<j. d ^ i)"
  by (simp add: sum.lessThan_Suc_shift sum_distrib_left del: sum.lessThan_Suc)

text \<open>
  Every pass adds at most twice its amplitude to the bound, once for the square step and
  once for the diamond step.
\<close>

lemma generate_loop_bound:
  assumes r: "rand_ok e" and n: "1 < ITERATIONS e"
  shows "0 \<le> amplitude \<Longrightarrow> 2 ^ j dvd (ITERATIONS e - 1) \<Longrightarrow>
         grid_bounded e (2 ^ j) B (terrain s) \<Longrightarrow>
         generate_loop e (2 ^ j) amplitude s = Some (l, a', s') \<Longrightarrow>
         grid_bounded e 1 (B + 2 * amplitude * (\<Sum>i<j. (2 powr (- ROUGHNESS e)) ^ i)) (terrain s')"
proof (induction j arbitrary: amplitude s B)
  case 0
  then show ?case by (simp add: generate_loop_exit)
next
  case (Suc j)
  let ?d = "2 powr (- ROUGHNESS e)"
  let ?s1 = "square_step e (2 * 2 ^ j) (2 ^ j) amplitude s"
  let ?s2 = "diamond_step e (2 * 2 ^ j) (2 ^ j) amplitude ?s1"
  have h: "(0::nat) < 2 ^ j" by simp
  have d2: "(2 * 2 ^ j) dvd (ITERATIONS e - 1)" using Suc.prems(2) by simp
  have d1: "2 ^ j dvd (ITERATIONS e - 1)" using d2 by (rule dvd_mult_right)
  have g: "grid_bounded e (2 * 2 ^ j) B (terrain s)" using Suc.prems(3) by simp
  have g2: "grid_bounded e (2 ^ j) (B + 2 * amplitude) (terrain ?s2)"
    by (rule subdivision_bound [OF r Suc.prems(1) h n d2 g])
  have a2: "0 \<le> amplitude * ?d" using Suc.prems(1) by simp
  have run: "generate_loop e (2 ^ j) (amplitude * ?d) ?s2 = Some (l, a', s')"
    using Suc.prems(4) by (simp only: generate_loop_pass_pow2)
  have "grid_bounded e 1 (B + 2 * amplitude + 2 * (amplitude * ?d) * (\<Sum>i<j. ?d ^ i)) (terrain s')"
    by (rule Suc.IH [OF a2 d1 g2 run])
  moreover have "B + 2 * amplitude + 2 * (amplitude * ?d) * (\<Sum>i<j. ?d ^ i)
                 = B + 2 * amplitude * (\<Sum>i<Suc j. ?d ^ i)"
    by (simp only: geometric_shift) (simp add: algebra_simps)
  ultimately show ?case by simp
qed

lemma terragen_env_simps:
  "ITERATIONS (terragen_env n rv) = n"
  "INITIAL_HEIGHT (terragen_env n rv) = 50"
  "ROUGHNESS (terragen_env n rv) = 1.2"
  "RAND_MAX (terragen_env n rv) = 32767"
  "rand_values (terragen_env n rv) = rv"
  by (simp_all add: terragen_env_def)

lemma generate_pass_len: "fst (generate_pass e st) = fst st div 2"
  by (cases st) (simp add: generate_pass_def Let_def)


lemma generate_passes_len: "fst ((generate_pass e ^^ i) st) = fst st div 2 ^ i"
  by (induction i) (simp_all add: generate_pass_len div_mult2_eq [symmetric] mult.commute)





section \<open>The diamond step\<close>

lemma in_grid_neighbors_sum:
  assumes "x < ITERATIONS e" and "y < ITERATIONS e"
  shows "fst (diamond_neighbors e half x y t)
           = (\<Sum>(p, q) \<leftarrow> in_grid_neighbors (ITERATIONS e) half x y. t (nat p, nat q))"
    and "snd (diamond_neighbors e half x y t) = length (in_grid_neighbors (ITERATIONS e) half x y)"
  using assms by (auto simp: diamond_neighbors_eq in_grid_neighbors_def nat_diff_distrib nat_add_distrib)

lemma diamond_cell_rand_calls:
  "rand_calls (diamond_cell e half amplitude x y s) = rand_calls s + 1"
  by (simp add: diamond_cell_def calculate_noise_def rand_def split: prod.splits)

lemma diamond_visits_iff:
  assumes h: "0 < half"
  shows "visits 0 n half x \<and> visits ((x + half) mod (2 * half)) n (2 * half) y
         \<longleftrightarrow> x < n \<and> y < n
             \<and> ((x mod (2 * half) = 0 \<and> y mod (2 * half) = half)
                \<or> (x mod (2 * half) = half \<and> y mod (2 * half) = 0))"
proof
  assume v: "visits 0 n half x \<and> visits ((x + half) mod (2 * half)) n (2 * half) y"
  then have "x < n" "y < n" by (auto simp: visits_def)
  then show "x < n \<and> y < n
             \<and> ((x mod (2 * half) = 0 \<and> y mod (2 * half) = half)
                \<or> (x mod (2 * half) = half \<and> y mod (2 * half) = 0))"
    using diamond_visit_residues [OF h, of n x y] v by blast
next
  let ?len = "2 * half"
  assume c: "x < n \<and> y < n
             \<and> ((x mod ?len = 0 \<and> y mod ?len = half) \<or> (x mod ?len = half \<and> y mod ?len = 0))"
  have xd: "x div ?len * ?len + x mod ?len = x" and yd: "y div ?len * ?len + y mod ?len = y"
    by (rule div_mult_mod_eq)+
  have vx: "visits 0 n half x"
  proof (cases "x mod ?len = 0")
    case True
    then have "x = 0 + (2 * (x div ?len)) * half" using xd by simp
    then show ?thesis unfolding visits_def using c by (intro conjI exI [of _ "2 * (x div ?len)"]) simp_all
  next
    case False
    then have "x mod ?len = half" using c by simp
    then have "x = 0 + (2 * (x div ?len) + 1) * half" using xd by simp
    then show ?thesis unfolding visits_def using c by (intro conjI exI [of _ "2 * (x div ?len) + 1"]) simp_all
  qed
  have "(x + half) mod ?len = y mod ?len" using c mod_step_add_half [OF h, of x] by auto
  then have "y = (x + half) mod ?len + (y div ?len) * ?len" using yd by simp
  then have "visits ((x + half) mod ?len) n ?len y"
    unfolding visits_def using c by (intro conjI exI [of _ "y div ?len"]) simp_all
  then show "visits 0 n half x \<and> visits ((x + half) mod ?len) n ?len y" using vx by simp
qed

text \<open>
  The four cells that the diamond step reads around a cell it visits are cells it does
  not write.
\<close>

lemma diamond_reads_unwritten:
  assumes h: "0 < half"
    and res: "(x mod (2 * half) = 0 \<and> y mod (2 * half) = half)
              \<or> (x mod (2 * half) = half \<and> y mod (2 * half) = 0)"
    and f: "\<And>p q. \<not> ((p mod (2 * half) = 0 \<and> q mod (2 * half) = half)
                      \<or> (p mod (2 * half) = half \<and> q mod (2 * half) = 0))
                  \<Longrightarrow> t' (p, q) = t (p, q)"
  shows "diamond_neighbors e half x y t' = diamond_neighbors e half x y t"
proof -
  let ?len = "2 * half"
  let ?D = "\<lambda>p q. (p mod ?len = 0 \<and> q mod ?len = half) \<or> (p mod ?len = half \<and> q mod ?len = 0)"
  have n1: "t' (x - half, y) = t (x - half, y)" if "half \<le> x"
  proof -
    have "\<not> ?D (x - half) y" using res mod_step_sub_half [OF h that] h by auto
    then show ?thesis by (rule f)
  qed
  have n2: "t' (x + half, y) = t (x + half, y)"
  proof -
    have "\<not> ?D (x + half) y" using res mod_step_add_half [OF h, of x] h by auto
    then show ?thesis by (rule f)
  qed
  have n3: "t' (x, y - half) = t (x, y - half)" if "half \<le> y"
  proof -
    have "\<not> ?D x (y - half)" using res mod_step_sub_half [OF h that] h by auto
    then show ?thesis by (rule f)
  qed
  have n4: "t' (x, y + half) = t (x, y + half)"
  proof -
    have "\<not> ?D x (y + half)" using res mod_step_add_half [OF h, of y] h by auto
    then show ?thesis by (rule f)
  qed
  show ?thesis using n1 n3 by (simp add: diamond_neighbors_eq n2 n4)
qed

text \<open>
  What the diamond step leaves in a cell it visits: the average of the neighbours inside
  the grid, as they were when the step began, plus the noise of one of the calls of
  \<open>rand()\<close> made during the step.
\<close>

lemma diamond_step_values:
  assumes h: "0 < half"
    and p: "p < ITERATIONS e" and q: "q < ITERATIONS e"
    and pq: "(p mod (2 * half) = 0 \<and> q mod (2 * half) = half)
             \<or> (p mod (2 * half) = half \<and> q mod (2 * half) = 0)"
  shows "\<exists>j. rand_calls s \<le> j \<and> j < rand_calls (diamond_step e (2 * half) half amplitude s)
             \<and> terrain (diamond_step e (2 * half) half amplitude s) (p, q)
               = fst (diamond_neighbors e half p q (terrain s))
                   / real (snd (diamond_neighbors e half p q (terrain s)))
                 + (real (rand_values e j) / real (RAND_MAX e) * 2 - 1) * amplitude"
proof -
  let ?n = "ITERATIONS e"
  let ?len = "2 * half"
  let ?D = "\<lambda>p q. (p mod ?len = 0 \<and> q mod ?len = half) \<or> (p mod ?len = half \<and> q mod ?len = 0)"
  let ?Inv = "\<lambda>s' :: world. (\<forall>p q. \<not> ?D p q \<longrightarrow> terrain s' (p, q) = terrain s (p, q))
                            \<and> rand_calls s \<le> rand_calls s'"
  let ?val = "\<lambda>x y j. fst (diamond_neighbors e half x y (terrain s))
                          / real (snd (diamond_neighbors e half x y (terrain s)))
                        + (real (rand_values e j) / real (RAND_MAX e) * 2 - 1) * amplitude"
  let ?Q = "\<lambda>x y (s' :: world). \<exists>j. rand_calls s \<le> j \<and> j < rand_calls s'
                                     \<and> terrain s' (x, y) = ?val x y j"
  let ?body = "diamond_cell e half amplitude"
  let ?ay = "\<lambda>x. (x + half) mod ?len"
  have est: "?Q x y (?body x y s')"
    if x: "visits 0 ?n half x" and y: "visits (?ay x) ?n ?len y" and i: "?Inv s'"
    for x y and s' :: world
  proof -
    have res: "?D x y" by (rule diamond_visit_residues [OF h x y])
    have fr: "terrain s' (p', q') = terrain s (p', q')" if "\<not> ?D p' q'" for p' q'
      using i that by blast
    have "diamond_neighbors e half x y (terrain s') = diamond_neighbors e half x y (terrain s)"
      using h res fr by (rule diamond_reads_unwritten)
    then have "terrain (?body x y s') (x, y) = ?val x y (rand_calls s')"
      by (simp add: diamond_cell_terrain calculate_noise_value)
    moreover have "rand_calls s \<le> rand_calls s'" using i by blast
    ultimately show ?thesis
      by (intro exI [of _ "rand_calls s'"]) (simp add: diamond_cell_rand_calls)
  qed
  have cover: "?Inv (for_loop 0 ?n half (\<lambda>x. for_loop (?ay x) ?n ?len (?body x)) s)
        \<and> (\<forall>x y. visits 0 ?n half x \<and> visits (?ay x) ?n ?len y
               \<longrightarrow> ?Q x y (for_loop 0 ?n half (\<lambda>x. for_loop (?ay x) ?n ?len (?body x)) s))"
  proof (rule for_loop2_cover [where Inv = ?Inv and Q = ?Q and ay = ?ay])
    show "0 < half" "0 < ?len" using h by simp_all
    show "?Inv s" by simp
  next
    fix x y and s' :: world
    assume x: "visits 0 ?n half x" and y: "visits (?ay x) ?n ?len y" and i: "?Inv s'"
    have res: "?D x y" by (rule diamond_visit_residues [OF h x y])
    show "?Inv (?body x y s')"
    proof (intro conjI allI impI)
      fix p' q' assume c: "\<not> ?D p' q'"
      then have "(x, y) \<noteq> (p', q')" using res by auto
      then have "terrain (?body x y s') (p', q') = terrain s' (p', q')"
        by (auto simp: diamond_cell_terrain)
      then show "terrain (?body x y s') (p', q') = terrain s (p', q')"
        using i c by simp
    next
      show "rand_calls s \<le> rand_calls (?body x y s')"
        using i by (simp add: diamond_cell_rand_calls)
    qed
    show "?Q x y (?body x y s')" by (rule est [OF x y i])
    fix x' y' assume o: "?Q x' y' s'"
    show "?Q x' y' (?body x y s')"
    proof (cases "(x', y') = (x, y)")
      case True
      then show ?thesis using est [OF x y i] by simp
    next
      case False
      then have t: "terrain (?body x y s') (x', y') = terrain s' (x', y')"
        by (auto simp: diamond_cell_terrain)
      from o obtain j where j: "rand_calls s \<le> j" "j < rand_calls s'"
        "terrain s' (x', y') = ?val x' y' j" by blast
      show ?thesis
        using j by (intro exI [of _ j]) (simp add: t diamond_cell_rand_calls)
    qed
  qed
  have "visits 0 ?n half p \<and> visits (?ay p) ?n ?len q"
    using diamond_visits_iff [OF h, of ?n p q] p q pq by blast
  moreover from cover have "\<forall>x y. visits 0 ?n half x \<and> visits (?ay x) ?n ?len y
      \<longrightarrow> ?Q x y (diamond_step e ?len half amplitude s)"
    unfolding diamond_step_def by (rule conjunct2)
  ultimately show ?thesis by (elim allE [of _ p] allE [of _ q]) simp
qed


text \<open>
  C1. Pass \<open>i\<close> of the generation loop on a grid of size \<open>N = 2^k + 1\<close> runs the square
  step and then the diamond step with \<open>half\<close> equal to half the step \<open>len\<close> of the pass.
  The diamond step writes the cells of the grid that have one coordinate on the grid of
  step \<open>len\<close> and the other half a step off it, and no other cell. What it leaves in
  such a cell is the sum of the cell's neighbours at distance \<open>half\<close> in the four
  cardinal directions that lie inside the grid, as the square step left them, divided by
  their number, plus the noise of one call of \<open>rand()\<close> made during the step; that number
  is 4 when the four neighbours are inside the grid and 2 or 3 otherwise.
\<close>

theorem diamond_phase_average:
  assumes "ITERATIONS e = 2 ^ k + 1" and "i < k"
    and "(generate_pass e ^^ i) (ITERATIONS e - 1, INITIAL_HEIGHT e, s0) = (len, amplitude, s)"
    and "half = len div 2"
    and "s1 = square_step e len half amplitude s"
    and "s2 = diamond_step e len half amplitude s1"
  shows "(generate_pass e ^^ Suc i) (ITERATIONS e - 1, INITIAL_HEIGHT e, s0)
           = (half, amplitude * 2 powr (- ROUGHNESS e), s2)
         \<and> len = 2 * half \<and> 1 \<le> half \<and> 2 * half < ITERATIONS e
         \<and> (\<forall>x y. visits 0 (ITERATIONS e) half x \<and> visits ((x + half) mod len) (ITERATIONS e) len y
                  \<longleftrightarrow> x < ITERATIONS e \<and> y < ITERATIONS e
                      \<and> ((x mod len = 0 \<and> y mod len = half) \<or> (x mod len = half \<and> y mod len = 0)))
         \<and> (\<forall>x y. x < ITERATIONS e \<and> y < ITERATIONS e
                  \<and> ((x mod len = 0 \<and> y mod len = half) \<or> (x mod len = half \<and> y mod len = 0))
                \<longrightarrow> (\<exists>j. rand_calls s1 \<le> j \<and> j < rand_calls s2
                         \<and> terrain s2 (x, y)
                           = (\<Sum>(p, q) \<leftarrow> in_grid_neighbors (ITERATIONS e) half x y. terrain s1 (nat p, nat q))
                               / real (length (in_grid_neighbors (ITERATIONS e) half x y))
                             + (real (rand_values e j) / real (RAND_MAX e) * 2 - 1) * amplitude)
                    \<and> (if half \<le> x \<and> x + half < ITERATIONS e \<and> half \<le> y \<and> y + half < ITERATIONS e
                        then length (in_grid_neighbors (ITERATIONS e) half x y) = 4
                        else length (in_grid_neighbors (ITERATIONS e) half x y) \<in> {2, 3}))
         \<and> (\<forall>x y. \<not> ((x mod len = 0 \<and> y mod len = half) \<or> (x mod len = half \<and> y mod len = 0))
                \<longrightarrow> terrain s2 (x, y) = terrain s1 (x, y))"
proof -
  let ?n = "ITERATIONS e"
  have "len = fst ((generate_pass e ^^ i) (?n - 1, INITIAL_HEIGHT e, s0))"
    by (simp only: assms(3) fst_conv)
  also have "\<dots> = 2 ^ k div 2 ^ i" using assms(1) by (simp only: generate_passes_len fst_conv) simp
  also have "\<dots> = 2 ^ (k - i)" using assms(2) by (simp add: power_diff)
  also have "\<dots> = 2 ^ Suc (k - Suc i)" using assms(2) by (simp add: Suc_diff_Suc)
  finally have len': "len = 2 ^ Suc (k - Suc i)" .
  then have len: "len = 2 * 2 ^ (k - Suc i)" by simp
  then have half: "half = 2 ^ (k - Suc i)" using assms(4) by simp
  have l2: "len = 2 * half" using len half by simp
  have h: "0 < half" using half by simp
  have "(2::nat) ^ Suc (k - Suc i) \<le> 2 ^ k" using assms(2) by (intro power_increasing) simp_all
  then have "len \<le> 2 ^ k" by (simp only: len')
  then have n: "2 * half < ?n" using l2 assms(1) by simp
  have pass: "(generate_pass e ^^ Suc i) (?n - 1, INITIAL_HEIGHT e, s0)
                = (half, amplitude * 2 powr (- ROUGHNESS e), s2)"
  proof -
    have "(generate_pass e ^^ Suc i) (?n - 1, INITIAL_HEIGHT e, s0) = generate_pass e (len, amplitude, s)"
      by (simp only: funpow.simps o_apply assms(3))
    also have "\<dots> = (half, amplitude * 2 powr (- ROUGHNESS e), s2)"
      by (simp add: generate_pass_def Let_def assms(4,5,6))
    finally show ?thesis .
  qed
  have vis: "visits 0 ?n half x \<and> visits ((x + half) mod len) ?n len y
               \<longleftrightarrow> x < ?n \<and> y < ?n
                   \<and> ((x mod len = 0 \<and> y mod len = half) \<or> (x mod len = half \<and> y mod len = 0))"
    for x y
    unfolding l2 by (rule diamond_visits_iff [OF h])
  have val: "\<exists>j. rand_calls s1 \<le> j \<and> j < rand_calls s2
                \<and> terrain s2 (x, y)
                  = (\<Sum>(p, q) \<leftarrow> in_grid_neighbors ?n half x y. terrain s1 (nat p, nat q))
                      / real (length (in_grid_neighbors ?n half x y))
                    + (real (rand_values e j) / real (RAND_MAX e) * 2 - 1) * amplitude"
    if "x < ?n" "y < ?n"
      "(x mod len = 0 \<and> y mod len = half) \<or> (x mod len = half \<and> y mod len = 0)" for x y
    using diamond_step_values [OF h that(1,2) that(3) [unfolded l2], of s1 amplitude]
    by (simp only: assms(6) l2 in_grid_neighbors_sum [OF that(1,2)])
  have cnt: "if half \<le> x \<and> x + half < ?n \<and> half \<le> y \<and> y + half < ?n
             then length (in_grid_neighbors ?n half x y) = 4
             else length (in_grid_neighbors ?n half x y) \<in> {2, 3}"
    if "x < ?n" "y < ?n" for x y
  proof -
    have xs: "half \<le> x \<or> x + half < ?n" and ys: "half \<le> y \<or> y + half < ?n"
      using n by linarith+
    have "length (in_grid_neighbors ?n half x y)
           = (if half \<le> x then 1 else 0) + (if x + half < ?n then 1 else 0)
             + (if half \<le> y then 1 else 0) + (if y + half < ?n then 1 else 0)"
      using in_grid_neighbors_sum(2) [OF that, of half "terrain s"]
      by (simp add: diamond_neighbors_eq)
    then show ?thesis using xs ys by auto
  qed
  have frame: "terrain s2 (x, y) = terrain s1 (x, y)"
    if "\<not> ((x mod len = 0 \<and> y mod len = half) \<or> (x mod len = half \<and> y mod len = 0))" for x y
    unfolding assms(6) l2 by (rule diamond_step_frame [OF h that [unfolded l2]])
  have cells: "\<forall>x y. x < ?n \<and> y < ?n
                  \<and> ((x mod len = 0 \<and> y mod len = half) \<or> (x mod len = half \<and> y mod len = 0))
                \<longrightarrow> (\<exists>j. rand_calls s1 \<le> j \<and> j < rand_calls s2
                         \<and> terrain s2 (x, y)
                           = (\<Sum>(p, q) \<leftarrow> in_grid_neighbors ?n half x y. terrain s1 (nat p, nat q))
                               / real (length (in_grid_neighbors ?n half x y))
                             + (real (rand_values e j) / real (RAND_MAX e) * 2 - 1) * amplitude)
                    \<and> (if half \<le> x \<and> x + half < ?n \<and> half \<le> y \<and> y + half < ?n
                        then length (in_grid_neighbors ?n half x y) = 4
                        else length (in_grid_neighbors ?n half x y) \<in> {2, 3})"
  proof (intro allI impI conjI)
    fix x y
    assume c: "x < ?n \<and> y < ?n
                  \<and> ((x mod len = 0 \<and> y mod len = half) \<or> (x mod len = half \<and> y mod len = 0))"
    then have x: "x < ?n" and y: "y < ?n"
      and r: "(x mod len = 0 \<and> y mod len = half) \<or> (x mod len = half \<and> y mod len = 0)"
      by simp_all
    show "\<exists>j. rand_calls s1 \<le> j \<and> j < rand_calls s2
                \<and> terrain s2 (x, y)
                  = (\<Sum>(p, q) \<leftarrow> in_grid_neighbors ?n half x y. terrain s1 (nat p, nat q))
                      / real (length (in_grid_neighbors ?n half x y))
                    + (real (rand_values e j) / real (RAND_MAX e) * 2 - 1) * amplitude"
      by (rule val [OF x y r])
    show "if half \<le> x \<and> x + half < ?n \<and> half \<le> y \<and> y + half < ?n
             then length (in_grid_neighbors ?n half x y) = 4
             else length (in_grid_neighbors ?n half x y) \<in> {2, 3}"
      by (rule cnt [OF x y])
  qed
  have h1: "1 \<le> half" using h by simp
  have visa: "\<forall>x y. visits 0 ?n half x \<and> visits ((x + half) mod len) ?n len y
                  \<longleftrightarrow> x < ?n \<and> y < ?n
                      \<and> ((x mod len = 0 \<and> y mod len = half) \<or> (x mod len = half \<and> y mod len = 0))"
    using vis by blast
  have framea: "\<forall>x y. \<not> ((x mod len = 0 \<and> y mod len = half) \<or> (x mod len = half \<and> y mod len = 0))
                \<longrightarrow> terrain s2 (x, y) = terrain s1 (x, y)"
    using frame by blast
  show ?thesis
    by (intro conjI) (fact pass l2 h1 n visa cells framea)+
qed


theorem diamond_phase_average_witness:
  "terrain (square_step (terragen_env 3 (\<lambda>i. 32767)) 2 1 50 initial_world) (1, 1) = 50
   \<and> in_grid_neighbors 3 1 0 1 = [(1, 1), (0, 0), (0, 2)]
   \<and> terrain (diamond_step (terragen_env 3 (\<lambda>i. 32767)) 2 1 50
                (square_step (terragen_env 3 (\<lambda>i. 32767)) 2 1 50 initial_world)) (0, 1)
       = (50 + 0 + 0) / 3 + 50"
proof -
  let ?e = "terragen_env 3 (\<lambda>i. 32767)"
  let ?s1 = "square_step ?e 2 1 50 initial_world"
  let ?s2 = "diamond_step ?e 2 1 50 ?s1"
  have n: "in_grid_neighbors 3 1 0 1 = [(1, 1), (0, 0), (0, 2)]"
    by (simp add: in_grid_neighbors_def)
  have c: "terrain ?s1 (1, 1) = 50"
    by (simp add: square_step_def for_loop_step for_loop_exit square_cell_terrain
          calculate_noise_value terragen_env_simps initial_world_def)
  have z: "terrain ?s1 (0, 0) = 0" "terrain ?s1 (0, 2) = 0"
    using square_step_frame [of 1 0 0 ?e 50 initial_world]
      square_step_frame [of 1 0 2 ?e 50 initial_world]
    by (simp_all add: initial_world_def)
  have a: "ITERATIONS ?e = 2 ^ 1 + 1" by (simp add: terragen_env_simps)
  have b: "(0::nat) < 1" by simp
  have st: "(generate_pass ?e ^^ 0) (ITERATIONS ?e - 1, INITIAL_HEIGHT ?e, initial_world)
              = (2, 50, initial_world)"
    by (simp add: terragen_env_simps)
  have hf: "(1::nat) = 2 div 2" by simp
  note av = diamond_phase_average [OF a b st hf refl refl]
  have i3: "ITERATIONS ?e = 3" by (simp add: terragen_env_simps)
  have pre: "0 < (3::nat) \<and> 1 < (3::nat)
             \<and> (((0::nat) mod 2 = 0 \<and> (1::nat) mod 2 = 1) \<or> ((0::nat) mod 2 = 1 \<and> (1::nat) mod 2 = 0))"
    by simp
  note cells = av [THEN conjunct2, THEN conjunct2, THEN conjunct2, THEN conjunct2,
      THEN conjunct2, THEN conjunct1, rule_format, of 0 1, unfolded i3 n, OF pre, THEN conjunct1]
  then obtain j where j: "terrain ?s2 (0, 1)
      = (\<Sum>(p, q) \<leftarrow> [(1, 1), (0, 0), (0, 2)]. terrain ?s1 (nat p, nat q))
          / real (length [(1 :: int, 1 :: int), (0, 0), (0, 2)])
        + (real (rand_values ?e j) / real (RAND_MAX ?e) * 2 - 1) * 50"
    by (elim exE conjE)
  have sum: "(\<Sum>(p, q) \<leftarrow> [(1, 1), (0, 0), (0, 2)]. terrain ?s1 (nat p, nat q)) = 50 + 0 + 0"
    using c z by simp
  have "terrain ?s2 (0, 1) = (50 + 0 + 0) / 3 + 50"
    unfolding j sum by (simp add: terragen_env_simps)
  then show ?thesis using n c by simp
qed

text \<open>
  C9. Before the diamond step of any pass that the loop makes, whatever the grid size,
  \<open>half\<close> is at least 1 and twice \<open>half\<close> is less than \<open>N\<close>; so for every cell of the
  grid one of the four guards holds, and the count that divides the sum is at least 1.
\<close>

theorem diamond_count_positive:
  assumes "1 < fst ((generate_pass e ^^ i) (ITERATIONS e - 1, INITIAL_HEIGHT e, s))"
    and "half = fst ((generate_pass e ^^ i) (ITERATIONS e - 1, INITIAL_HEIGHT e, s)) div 2"
    and "x < ITERATIONS e" and "y < ITERATIONS e"
  shows "1 \<le> half
         \<and> (half \<le> x \<or> x + half < ITERATIONS e \<or> half \<le> y \<or> y + half < ITERATIONS e)
         \<and> 1 \<le> snd (diamond_neighbors e half x y t)"
proof -
  define len where "len = fst ((generate_pass e ^^ i) (ITERATIONS e - 1, INITIAL_HEIGHT e, s))"
  have "len = (ITERATIONS e - 1) div 2 ^ i" by (simp add: len_def generate_passes_len)
  then have "len \<le> ITERATIONS e - 1" by simp
  moreover have "1 < len" "half = len div 2" using assms(1,2) by (simp_all add: len_def)
  ultimately have h: "1 \<le> half" and n: "2 * half < ITERATIONS e" by linarith+
  have "half \<le> x \<or> x + half < ITERATIONS e" using n by linarith
  then show ?thesis using h diamond_count_ge_1 [OF n, of x y t] by blast
qed

theorem diamond_count_positive_witness:
  "1 \<le> snd (diamond_neighbors (terragen_env 5 (\<lambda>i. 0)) 1 0 1 (\<lambda>c. 0))"
proof -
  let ?e = "terragen_env 5 (\<lambda>i. 0)"
  have l: "fst ((generate_pass ?e ^^ 1) (ITERATIONS ?e - 1, INITIAL_HEIGHT ?e, initial_world)) = 2"
    by (simp add: generate_pass_len terragen_env_simps)
  have a: "1 < fst ((generate_pass ?e ^^ 1) (ITERATIONS ?e - 1, INITIAL_HEIGHT ?e, initial_world))"
    unfolding l by simp
  have b: "(1::nat) = fst ((generate_pass ?e ^^ 1) (ITERATIONS ?e - 1, INITIAL_HEIGHT ?e, initial_world)) div 2"
    unfolding l by simp
  have c: "0 < ITERATIONS ?e" "1 < ITERATIONS ?e" by (simp_all add: terragen_env_simps)
  from diamond_count_positive [OF a b c, of "\<lambda>c. 0"] show ?thesis by simp
qed

section \<open>Generation after the corner reset\<close>

lemma reset_canvas_corners_terrain:
  "terrain (reset_canvas_corners e s) (p, q) =
     (if (p = 0 \<or> p = ITERATIONS e - 1) \<and> (q = 0 \<or> q = ITERATIONS e - 1) then 0
      else terrain s (p, q))"
  by (auto simp: reset_canvas_corners_def Let_def)

lemma generate_terrain_pow2:
  assumes "ITERATIONS e = 2 ^ k + 1"
  shows "\<exists>s'. generate_terrain e s = Some s'
              \<and> generate_loop e (2 ^ k) (INITIAL_HEIGHT e) (s\<lparr>min_height := 0, max_height := 0\<rparr>)
                  = Some (1, INITIAL_HEIGHT e * (2 powr (- ROUGHNESS e)) ^ k, s')"
proof -
  obtain s' where "generate_loop e (2 ^ k) (INITIAL_HEIGHT e) (s\<lparr>min_height := 0, max_height := 0\<rparr>)
                  = Some (1, INITIAL_HEIGHT e * (2 powr (- ROUGHNESS e)) ^ k, s')"
    using generate_loop_pow2 [of e k "INITIAL_HEIGHT e" "s\<lparr>min_height := 0, max_height := 0\<rparr>"] by blast
  then show ?thesis using assms by (simp add: generate_terrain_def)
qed

lemma generate_terrain_coarse_cells:
  assumes "ITERATIONS e = 2 ^ k + 1" and "generate_terrain e s = Some s'"
    and "p mod 2 ^ k = 0" and "q mod 2 ^ k = 0"
  shows "terrain s' (p, q) = terrain s (p, q)"
proof -
  obtain s2 where run: "generate_loop e (2 ^ k) (INITIAL_HEIGHT e) (s\<lparr>min_height := 0, max_height := 0\<rparr>)
                  = Some (1, INITIAL_HEIGHT e * (2 powr (- ROUGHNESS e)) ^ k, s2)"
    and fr: "\<forall>p q. p mod 2 ^ k = 0 \<and> q mod 2 ^ k = 0 \<longrightarrow>
               terrain s2 (p, q) = terrain (s\<lparr>min_height := 0, max_height := 0\<rparr>) (p, q)"
    using generate_loop_pow2 [of e k "INITIAL_HEIGHT e" "s\<lparr>min_height := 0, max_height := 0\<rparr>"]
    by (elim exE conjE)
  have "s' = s2" using assms(1,2) run by (simp add: generate_terrain_def)
  then show ?thesis using fr [rule_format, of p q] assms(3,4) by simp
qed

lemma corner_residue:
  assumes "ITERATIONS e = 2 ^ k + 1" and "j < k" and "is_corner e (p, q)"
  shows "p mod (2 * 2 ^ j) = 0 \<and> q mod (2 * 2 ^ j) = 0"
proof -
  have "(2::nat) ^ Suc j dvd 2 ^ k" using assms(2) by (intro le_imp_power_dvd) simp
  then have "(2 ^ k) mod (2 * 2 ^ j) = (0::nat)" by simp
  then show ?thesis using assms(1,3) by (auto simp: is_corner_def)
qed

text \<open>
  C2. For \<open>N = 2^k + 1\<close>: in the pass with \<open>half = 2^j\<close>, for each \<open>j < k\<close>, neither the
  cell \<open>(x + half, y + half)\<close> that the square step writes nor the cell \<open>(x, y)\<close> that the
  diamond step writes is a corner, for any indices the loops visit. Generation returns
  and leaves in each corner the value it found there; after the corner reset that value
  is 0.
\<close>

theorem corners_zero_after_generation:
  assumes "ITERATIONS e = 2 ^ k + 1"
  shows "(\<exists>s'. generate_terrain e (reset_canvas_corners e s) = Some s'
              \<and> terrain s' (0, 0) = 0
              \<and> terrain s' (0, ITERATIONS e - 1) = 0
              \<and> terrain s' (ITERATIONS e - 1, 0) = 0
              \<and> terrain s' (ITERATIONS e - 1, ITERATIONS e - 1) = 0)
         \<and> (\<exists>s'. generate_terrain e s = Some s'
              \<and> (\<forall>c. is_corner e c \<longrightarrow> terrain s' c = terrain s c))
         \<and> (\<forall>j x y. j < k \<and> visits 0 (ITERATIONS e - 1) (2 * 2 ^ j) x
                      \<and> visits 0 (ITERATIONS e - 1) (2 * 2 ^ j) y
                \<longrightarrow> \<not> is_corner e (x + 2 ^ j, y + 2 ^ j))
         \<and> (\<forall>j x y. j < k \<and> visits 0 (ITERATIONS e) (2 ^ j) x
                      \<and> visits ((x + 2 ^ j) mod (2 * 2 ^ j)) (ITERATIONS e) (2 * 2 ^ j) y
                \<longrightarrow> \<not> is_corner e (x, y))"
proof -
  have n: "(ITERATIONS e - 1) mod 2 ^ k = 0" and z: "(0::nat) mod 2 ^ k = 0"
    using assms by simp_all
  have keep: "\<exists>s'. generate_terrain e s = Some s'
              \<and> (\<forall>c. is_corner e c \<longrightarrow> terrain s' c = terrain s c)"
    for s
  proof -
    obtain s' where g: "generate_terrain e s = Some s'"
      using generate_terrain_pow2 [OF assms, of s] by blast
    have "terrain s' c = terrain s c" if "is_corner e c" for c
      using that generate_terrain_coarse_cells [OF assms g z z]
        generate_terrain_coarse_cells [OF assms g z n]
        generate_terrain_coarse_cells [OF assms g n z]
        generate_terrain_coarse_cells [OF assms g n n]
      unfolding is_corner_def by (elim disjE) simp_all
    then show ?thesis using g by blast
  qed
  have reset: "terrain (reset_canvas_corners e s) c = 0" if "is_corner e c" for c
    using that by (cases c) (auto simp: is_corner_def reset_canvas_corners_terrain)
  have c4: "is_corner e (0, 0)" "is_corner e (0, ITERATIONS e - 1)"
    "is_corner e (ITERATIONS e - 1, 0)" "is_corner e (ITERATIONS e - 1, ITERATIONS e - 1)"
    by (simp_all add: is_corner_def)
  obtain s' where g: "generate_terrain e (reset_canvas_corners e s) = Some s'"
    and k: "\<forall>c. is_corner e c \<longrightarrow> terrain s' c = terrain (reset_canvas_corners e s) c"
    using keep [of "reset_canvas_corners e s"] by blast
  have zero: "\<exists>s'. generate_terrain e (reset_canvas_corners e s) = Some s'
              \<and> terrain s' (0, 0) = 0
              \<and> terrain s' (0, ITERATIONS e - 1) = 0
              \<and> terrain s' (ITERATIONS e - 1, 0) = 0
              \<and> terrain s' (ITERATIONS e - 1, ITERATIONS e - 1) = 0"
    using g k c4 reset by (intro exI [of _ s']) simp
  have sq: "\<not> is_corner e (x + 2 ^ j, y + 2 ^ j)"
    if "j < k" "visits 0 (ITERATIONS e - 1) (2 * 2 ^ j) x" for j x y
  proof
    assume "is_corner e (x + 2 ^ j, y + 2 ^ j)"
    then have "(x + 2 ^ j) mod (2 * 2 ^ j) = 0"
      using corner_residue [OF assms that(1)] by blast
    moreover have "x mod (2 * 2 ^ j) = 0" using that(2) by (auto simp: visits_def)
    then have "(x + 2 ^ j) mod (2 * 2 ^ j) = 2 ^ j"
      by (intro mod_step_add_half(1)) simp_all
    ultimately show False by simp
  qed
  have di: "\<not> is_corner e (x, y)"
    if "j < k" "visits 0 (ITERATIONS e) (2 ^ j) x"
      "visits ((x + 2 ^ j) mod (2 * 2 ^ j)) (ITERATIONS e) (2 * 2 ^ j) y" for j x y
  proof
    assume "is_corner e (x, y)"
    then have "x mod (2 * 2 ^ j) = 0 \<and> y mod (2 * 2 ^ j) = 0"
      using corner_residue [OF assms that(1)] by blast
    moreover have "(x mod (2 * 2 ^ j) = 0 \<and> y mod (2 * 2 ^ j) = 2 ^ j)
         \<or> (x mod (2 * 2 ^ j) = 2 ^ j \<and> y mod (2 * 2 ^ j) = 0)"
      using that(2,3) by (intro diamond_visit_residues) simp_all
    ultimately show False by simp
  qed
  show ?thesis using zero keep [of s] sq di by blast
qed

theorem corners_zero_after_generation_witness:
  "ITERATIONS (terragen_env 5 (\<lambda>i. 7 * i)) = 2 ^ 2 + 1
   \<and> (\<exists>s'. generate_terrain (terragen_env 5 (\<lambda>i. 7 * i))
              (reset_canvas_corners (terragen_env 5 (\<lambda>i. 7 * i)) (initial_world\<lparr>terrain := (\<lambda>c. 9)\<rparr>))
            = Some s'
          \<and> terrain s' (0, 0) = 0 \<and> terrain s' (0, 4) = 0
          \<and> terrain s' (4, 0) = 0 \<and> terrain s' (4, 4) = 0)"
proof -
  have a: "ITERATIONS (terragen_env 5 (\<lambda>i. 7 * i)) = 2 ^ 2 + 1" by (simp add: terragen_env_simps)
  show ?thesis
    using a corners_zero_after_generation [OF a, of "initial_world\<lparr>terrain := (\<lambda>c. 9)\<rparr>", THEN conjunct1]
    by (simp add: terragen_env_simps)
qed

lemma pow2_grid_corner:
  fixes p :: nat
  assumes "p < 2 ^ k + 1" and "p mod 2 ^ k = 0"
  shows "p = 0 \<or> p = 2 ^ k"
proof (cases "p < 2 ^ k")
  case True
  then show ?thesis using assms(2) by simp
next
  case False
  then show ?thesis using assms(1) by simp
qed

lemma powr_roughness_power: "(2 powr (- rgh)) ^ i = 2 powr (- rgh * real i)"
  by (simp add: powr_realpow [symmetric] powr_powr)

text \<open>
  C7. For \<open>N = 2^k + 1\<close>, a non-negative initial amplitude and values of \<open>rand()\<close>
  between 0 and \<open>RAND_MAX\<close>, every noise sample lies between minus the amplitude passed
  and that amplitude, generation after the corner reset returns, and every cell of the
  grid then lies between \<open>-2 A \<Sigma>\<close> and \<open>2 A \<Sigma>\<close>, where \<open>A\<close> is the initial amplitude and
  \<open>\<Sigma>\<close> the sum of \<open>2 powr (- ROUGHNESS * i)\<close> over the \<open>k\<close> passes \<open>i = 0, \<dots>, k - 1\<close>.
\<close>

theorem generated_terrain_bounded:
  assumes "ITERATIONS e = 2 ^ k + 1" and "rand_ok e" and "0 \<le> INITIAL_HEIGHT e"
  shows "(\<forall>amplitude s. 0 \<le> amplitude \<longrightarrow>
            - amplitude \<le> fst (calculate_noise e amplitude s)
            \<and> fst (calculate_noise e amplitude s) \<le> amplitude)
         \<and> (\<exists>s'. generate_terrain e (reset_canvas_corners e s) = Some s'
               \<and> (\<forall>x y. x < ITERATIONS e \<and> y < ITERATIONS e \<longrightarrow>
                     - (2 * INITIAL_HEIGHT e * (\<Sum>i<k. 2 powr (- ROUGHNESS e * real i))) \<le> terrain s' (x, y)
                     \<and> terrain s' (x, y) \<le> 2 * INITIAL_HEIGHT e * (\<Sum>i<k. 2 powr (- ROUGHNESS e * real i))))"
proof -
  let ?s0 = "(reset_canvas_corners e s)\<lparr>min_height := 0, max_height := 0\<rparr>"
  have noise: "- amplitude \<le> fst (calculate_noise e amplitude s)
               \<and> fst (calculate_noise e amplitude s) \<le> amplitude" if "0 \<le> amplitude" for amplitude s
    using calculate_noise_bound [OF assms(2) that, of s] by linarith
  obtain s' where g: "generate_terrain e (reset_canvas_corners e s) = Some s'"
    and run: "generate_loop e (2 ^ k) (INITIAL_HEIGHT e) ?s0
                = Some (1, INITIAL_HEIGHT e * (2 powr (- ROUGHNESS e)) ^ k, s')"
    using generate_terrain_pow2 [OF assms(1), of "reset_canvas_corners e s"] by blast
  have n: "1 < ITERATIONS e" using assms(1) by simp
  have d: "2 ^ k dvd (ITERATIONS e - 1)" using assms(1) by simp
  have g0: "grid_bounded e (2 ^ k) 0 (terrain ?s0)"
    unfolding grid_bounded_def
  proof (intro allI impI)
    fix p q assume c: "p < ITERATIONS e \<and> q < ITERATIONS e \<and> p mod 2 ^ k = 0 \<and> q mod 2 ^ k = 0"
    then have "p = 0 \<or> p = 2 ^ k" "q = 0 \<or> q = 2 ^ k"
      using assms(1) pow2_grid_corner [of p k] pow2_grid_corner [of q k] by simp_all
    then have "terrain ?s0 (p, q) = 0"
      using assms(1) by (auto simp: reset_canvas_corners_terrain)
    then show "\<bar>terrain ?s0 (p, q)\<bar> \<le> 0" by simp
  qed
  have "grid_bounded e 1 (0 + 2 * INITIAL_HEIGHT e * (\<Sum>i<k. (2 powr (- ROUGHNESS e)) ^ i)) (terrain s')"
    by (rule generate_loop_bound [OF assms(2) n assms(3) d g0 run])
  then have "\<bar>terrain s' (x, y)\<bar> \<le> 2 * INITIAL_HEIGHT e * (\<Sum>i<k. 2 powr (- ROUGHNESS e * real i))"
    if "x < ITERATIONS e" "y < ITERATIONS e" for x y
    using that unfolding grid_bounded_def by (simp add: powr_roughness_power)
  then have "\<forall>x y. x < ITERATIONS e \<and> y < ITERATIONS e \<longrightarrow>
                     - (2 * INITIAL_HEIGHT e * (\<Sum>i<k. 2 powr (- ROUGHNESS e * real i))) \<le> terrain s' (x, y)
                     \<and> terrain s' (x, y) \<le> 2 * INITIAL_HEIGHT e * (\<Sum>i<k. 2 powr (- ROUGHNESS e * real i))"
    by (simp add: abs_le_iff) (metis minus_le_iff)
  then show ?thesis using noise g by blast
qed

theorem generated_terrain_bounded_witness:
  "rand_ok (terragen_env 3 (\<lambda>i. if even i then 32767 else 0))
   \<and> (\<exists>s'. generate_terrain (terragen_env 3 (\<lambda>i. if even i then 32767 else 0))
              (reset_canvas_corners (terragen_env 3 (\<lambda>i. if even i then 32767 else 0))
                 (initial_world\<lparr>terrain := (\<lambda>c. 1000)\<rparr>))
            = Some s'
          \<and> (\<forall>x y. x < 3 \<and> y < 3 \<longrightarrow> - 100 \<le> terrain s' (x, y) \<and> terrain s' (x, y) \<le> 100))"
proof -
  let ?e = "terragen_env 3 (\<lambda>i. if even i then 32767 else 0)"
  have a: "ITERATIONS ?e = 2 ^ 1 + 1" by (simp add: terragen_env_simps)
  have b: "rand_ok ?e" by (simp add: rand_ok_def terragen_env_simps)
  have c: "0 \<le> INITIAL_HEIGHT ?e" by (simp add: terragen_env_simps)
  show ?thesis
    using b generated_terrain_bounded [OF a b c, of "initial_world\<lparr>terrain := (\<lambda>c. 1000)\<rparr>", THEN conjunct2]
    by (simp add: terragen_env_simps)
qed

section \<open>Properties of the elevation statistics\<close>

lemma min_max_cell_simps:
  "terrain (min_max_cell x y s) = terrain s"
  "min_height (min_max_cell x y s) = min (min_height s) (terrain s (x, y))"
  "max_height (min_max_cell x y s) = max (max_height s) (terrain s (x, y))"
  by (auto simp: min_max_cell_def Let_def)

lemma calculate_min_max_height_scan:
  "terrain (calculate_min_max_height e s) = terrain s
   \<and> min_height (calculate_min_max_height e s) \<le> terrain s (0, 0)
   \<and> terrain s (0, 0) \<le> max_height (calculate_min_max_height e s)
   \<and> (\<forall>x y. x < ITERATIONS e \<and> y < ITERATIONS e \<longrightarrow>
         min_height (calculate_min_max_height e s) \<le> terrain s (x, y)
         \<and> terrain s (x, y) \<le> max_height (calculate_min_max_height e s))"
proof -
  let ?n = "ITERATIONS e"
  let ?s0 = "s\<lparr>min_height := terrain s (0, 0), max_height := terrain s (0, 0)\<rparr>"
  let ?Inv = "\<lambda>s' :: world. terrain s' = terrain s \<and> min_height s' \<le> terrain s (0, 0)
                \<and> terrain s (0, 0) \<le> max_height s'"
  let ?Q = "\<lambda>x y (s' :: world). min_height s' \<le> terrain s (x, y) \<and> terrain s (x, y) \<le> max_height s'"
  let ?F = "for_loop 0 ?n 1 (\<lambda>x. for_loop 0 ?n 1 (\<lambda>y. min_max_cell x y)) ?s0"
  have cover: "?Inv ?F \<and> (\<forall>x y. visits 0 ?n 1 x \<and> visits 0 ?n 1 y \<longrightarrow> ?Q x y ?F)"
  proof (rule for_loop2_cover [where Inv = ?Inv and Q = ?Q and ay = "\<lambda>x. 0"])
    show "(0::nat) < 1" "(0::nat) < 1" by simp_all
    show "?Inv ?s0" by simp
  next
    fix x y and s' :: world
    assume i: "?Inv s'"
    show "?Inv (min_max_cell x y s')" using i by (simp add: min_max_cell_simps min_le_iff_disj le_max_iff_disj)
    show "?Q x y (min_max_cell x y s')" using i by (simp add: min_max_cell_simps)
    fix x' y' assume "?Q x' y' s'"
    then show "?Q x' y' (min_max_cell x y s')"
      using i by (simp add: min_max_cell_simps min_le_iff_disj le_max_iff_disj)
  qed
  have v: "visits 0 ?n 1 x" if "x < ?n" for x
    unfolding visits_def using that by simp
  have F: "calculate_min_max_height e s = ?F"
    by (simp add: calculate_min_max_height_def Let_def)
  show ?thesis
    unfolding F using cover v by simp
qed

lemma calculate_view_parameters_frame:
  "terrain (calculate_view_parameters e s) = terrain s"
  "min_height (calculate_view_parameters e s) = min_height s"
  "max_height (calculate_view_parameters e s) = max_height s"
  by (simp_all add: calculate_view_parameters_def Let_def)

text \<open>
  C10. For \<open>N = 2^k + 1\<close> a regeneration returns, and in the state it returns every cell
  of the grid lies between \<open>min_height\<close> and \<open>max_height\<close>, and so does 0, the value of
  corner \<open>(0, 0)\<close>.
\<close>

theorem statistics_enclose_terrain:
  assumes "ITERATIONS e = 2 ^ k + 1"
  shows "\<exists>s'. regenerate e s = Some s'
              \<and> (\<forall>x y. x < ITERATIONS e \<and> y < ITERATIONS e \<longrightarrow>
                    min_height s' \<le> terrain s' (x, y) \<and> terrain s' (x, y) \<le> max_height s')
              \<and> terrain s' (0, 0) = 0
              \<and> min_height s' \<le> 0 \<and> 0 \<le> max_height s'"
proof -
  obtain s1 where g: "generate_terrain e (reset_canvas_corners e s) = Some s1"
    using generate_terrain_pow2 [OF assms, of "reset_canvas_corners e s"] by blast
  have "terrain s1 (0, 0) = terrain (reset_canvas_corners e s) (0, 0)"
    by (rule generate_terrain_coarse_cells [OF assms g]) simp_all
  then have z: "terrain s1 (0, 0) = 0" by (simp add: reset_canvas_corners_terrain)
  have r: "regenerate e s = Some (calculate_view_parameters e (calculate_min_max_height e s1))"
    by (simp add: regenerate_def g)
  show ?thesis
    unfolding r using z calculate_min_max_height_scan [of e s1]
    by (simp add: calculate_view_parameters_frame)
qed

theorem statistics_enclose_terrain_witness:
  "ITERATIONS (terragen_env 3 (\<lambda>i. 100 * i)) = 2 ^ 1 + 1
   \<and> (\<exists>s'. regenerate (terragen_env 3 (\<lambda>i. 100 * i)) initial_world = Some s'
          \<and> (\<forall>x y. x < 3 \<and> y < 3 \<longrightarrow>
                min_height s' \<le> terrain s' (x, y) \<and> terrain s' (x, y) \<le> max_height s')
          \<and> min_height s' \<le> 0 \<and> 0 \<le> max_height s')"
proof -
  let ?e = "terragen_env 3 (\<lambda>i. 100 * i)"
  have a: "ITERATIONS ?e = 2 ^ 1 + 1" by (simp add: terragen_env_simps)
  obtain s' where "regenerate ?e initial_world = Some s'
              \<and> (\<forall>x y. x < ITERATIONS ?e \<and> y < ITERATIONS ?e \<longrightarrow>
                    min_height s' \<le> terrain s' (x, y) \<and> terrain s' (x, y) \<le> max_height s')
              \<and> terrain s' (0, 0) = 0
              \<and> min_height s' \<le> 0 \<and> 0 \<le> max_height s'"
    using statistics_enclose_terrain [OF a, of initial_world] by (elim exE)
  then show ?thesis using a by (intro conjI exI [of _ s']) (simp_all add: terragen_env_simps)
qed

section \<open>Properties of the view fitter\<close>






section \<open>The projection in closed form\<close>




section \<open>The scale of the view\<close>






end
